theory Spec2Isabelle
  imports Main "HOL-Library.Code_Target_Numeral"
begin

section \<open>Go slices over a store of backing arrays\<close>

text \<open>
  The container of \<^verbatim>\<open>object.go\<close> keeps its entries in a Go slice. A slice is a header
  (backing array, length, capacity); several headers may name one backing array, and
  \<^verbatim>\<open>append\<close> writes in place while the capacity suffices. Whether two containers, or a
  container and a returned sequence, can influence each other therefore depends on which
  backing arrays they name. The store \<open>'a mem\<close> holds the backing arrays of one element
  type; an array is allocated at the next free index and never freed.
\<close>

datatype panic = PanicMakesliceLen | PanicMakesliceCap | PanicIndexOutOfRange | PanicSliceBounds

record slice =
  array :: nat
  len :: nat
  cap :: nat

type_synonym 'a mem = "'a list list"

definition backing :: "'a mem \<Rightarrow> slice \<Rightarrow> 'a list" where
  "backing m s = (if array s < length m then m ! array s else [])"

definition elems :: "'a mem \<Rightarrow> slice \<Rightarrow> 'a list" where
  "elems m s = take (len s) (backing m s)"

text \<open>The invariant of the Go runtime: a header names an allocated array of its capacity.\<close>

definition valid_slice :: "'a mem \<Rightarrow> slice \<Rightarrow> bool" where
  "valid_slice m s = (array s < length m \<and> length (m ! array s) = cap s \<and> len s \<le> cap s)"

text \<open>
  \<^verbatim>\<open>make([]T, l, c)\<close> for sizes the runtime can allocate: a fresh zeroed array; a negative
  or inverted size panics. The calls of \<^verbatim>\<open>object.go\<close> with the length of an existing slice
  are of this kind.
\<close>

definition makeslice :: "'a \<Rightarrow> 'a mem \<Rightarrow> int \<Rightarrow> int \<Rightarrow> panic + (slice \<times> 'a mem)" where
  "makeslice z m l c =
     (if l < 0 then Inl PanicMakesliceLen
      else if c < l then Inl PanicMakesliceCap
      else Inr (\<lparr>array = length m, len = nat l, cap = nat c\<rparr>, m @ [replicate (nat c) z]))"

text \<open>
  The size check of \<^verbatim>\<open>make\<close> on sizes that come from the caller. The runtime allocates at
  most \<open>lim\<close> elements of the element type in one array (the largest allocation divided
  by the element size, far below the largest \<^verbatim>\<open>int\<close>): a capacity that is negative, above
  \<open>lim\<close> or below the length panics, as a length out of range when the length alone is
  already refused and as a capacity out of range otherwise. A length read from an existing
  slice whose elements are no smaller passes the check, which is why \<open>makeslice\<close> serves
  for those calls. Exhaustion of memory, which ends the program, is not modelled.
\<close>

definition makeslice_limit ::
  "nat \<Rightarrow> 'a \<Rightarrow> 'a mem \<Rightarrow> int \<Rightarrow> int \<Rightarrow> panic + (slice \<times> 'a mem)" where
  "makeslice_limit lim z m l c =
     (if c < 0 \<or> int lim < c \<or> l < 0 \<or> c < l then
        (if l < 0 \<or> int lim < l then Inl PanicMakesliceLen else Inl PanicMakesliceCap)
      else Inr (\<lparr>array = length m, len = nat l, cap = nat c\<rparr>, m @ [replicate (nat c) z]))"

text \<open>\<^verbatim>\<open>s[i]\<close> read and \<^verbatim>\<open>s[i] = x\<close>, with the bounds check against the length.\<close>

definition index_get :: "'a mem \<Rightarrow> slice \<Rightarrow> int \<Rightarrow> panic + 'a" where
  "index_get m s i =
     (if 0 \<le> i \<and> i < int (len s) then Inr (backing m s ! nat i) else Inl PanicIndexOutOfRange)"

definition index_set :: "'a mem \<Rightarrow> slice \<Rightarrow> int \<Rightarrow> 'a \<Rightarrow> panic + 'a mem" where
  "index_set m s i x =
     (if 0 \<le> i \<and> i < int (len s) then Inr (m[array s := (backing m s)[nat i := x]])
      else Inl PanicIndexOutOfRange)"

text \<open>\<^verbatim>\<open>s[:j]\<close> keeps the array and is checked against the capacity.\<close>

definition slice_to :: "slice \<Rightarrow> int \<Rightarrow> panic + slice" where
  "slice_to s j = (if 0 \<le> j \<and> j \<le> int (cap s) then Inr (s\<lparr>len := nat j\<rparr>) else Inl PanicSliceBounds)"

text \<open>The elements of \<^verbatim>\<open>s[i:]\<close>, as \<^verbatim>\<open>append(dst, s[i:]...)\<close> reads them before it writes.\<close>

definition slice_from :: "'a mem \<Rightarrow> slice \<Rightarrow> int \<Rightarrow> panic + 'a list" where
  "slice_from m s i =
     (if 0 \<le> i \<and> i \<le> int (len s) then Inr (drop (nat i) (elems m s)) else Inl PanicSliceBounds)"

text \<open>
  \<^verbatim>\<open>append(s, xs...)\<close>: in place when the capacity suffices, otherwise into a fresh array
  whose capacity the runtime chooses (\<open>grow\<close>, at least what is needed).
\<close>

definition append_slice ::
  "(nat \<Rightarrow> nat \<Rightarrow> nat) \<Rightarrow> 'a \<Rightarrow> 'a mem \<Rightarrow> slice \<Rightarrow> 'a list \<Rightarrow> slice \<times> 'a mem" where
  "append_slice grow z m s xs =
     (let n = len s + length xs in
      if n \<le> cap s then
        (s\<lparr>len := n\<rparr>, m[array s := take (len s) (backing m s) @ xs @ drop n (backing m s)])
      else
        (let c = max n (grow (cap s) n) in
         (\<lparr>array = length m, len = n, cap = c\<rparr>, m @ [elems m s @ xs @ replicate (c - n) z])))"

text \<open>\<^verbatim>\<open>copy(dst, xs)\<close> copies as many elements as both sides hold.\<close>

definition copy_slice :: "'a mem \<Rightarrow> slice \<Rightarrow> 'a list \<Rightarrow> nat \<times> 'a mem" where
  "copy_slice m dst xs =
     (let n = min (len dst) (length xs) in
      (n, m[array dst := take n xs @ drop n (backing m dst)]))"


section \<open>The ordered container\<close>

record 'v Entry =
  Key :: string
  Value :: 'v

record Object =
  entries :: slice

text \<open>
  What the Go runtime and the value type supply: the growth policy, the zero value, and
  the largest number of entries \<^verbatim>\<open>make\<close> accepts for one array.
\<close>

record 'v runtime =
  growslice :: "nat \<Rightarrow> nat \<Rightarrow> nat"
  zeroV :: 'v
  maxElems :: nat

definition zero_entry :: "'v runtime \<Rightarrow> 'v Entry" where
  "zero_entry rt = \<lparr>Key = [], Value = zeroV rt\<rparr>"

definition NewObject :: "'v runtime \<Rightarrow> 'v Entry mem \<Rightarrow> int list \<Rightarrow> panic + ('v Entry mem \<times> Object)" where
  "NewObject rt m capacity =
     (let cap0 = (if length capacity > 0 then capacity ! 0 else 0) in
      case makeslice_limit (maxElems rt) (zero_entry rt) m 0 cap0 of
        Inl p \<Rightarrow> Inl p
      | Inr (s, m') \<Rightarrow> Inr (m', \<lparr>entries = s\<rparr>))"

fun findKeyIndex_range :: "'v Entry list \<Rightarrow> string \<Rightarrow> int \<Rightarrow> int" where
  "findKeyIndex_range [] key i = - 1"
| "findKeyIndex_range (entry # rest) key i =
     (if Key entry = key then i else findKeyIndex_range rest key (i + 1))"

definition findKeyIndex :: "'v Entry mem \<Rightarrow> Object \<Rightarrow> string \<Rightarrow> int" where
  "findKeyIndex m object key = findKeyIndex_range (elems m (entries object)) key 0"

definition Set ::
  "'v runtime \<Rightarrow> 'v Entry mem \<Rightarrow> Object \<Rightarrow> string \<Rightarrow> 'v \<Rightarrow> panic + ('v Entry mem \<times> Object)" where
  "Set rt m object key value =
     (let idx = findKeyIndex m object key in
      if idx \<ge> 0 then
        (case index_get m (entries object) idx of
           Inl p \<Rightarrow> Inl p
         | Inr e \<Rightarrow>
             (case index_set m (entries object) idx (e\<lparr>Value := value\<rparr>) of
                Inl p \<Rightarrow> Inl p
              | Inr m' \<Rightarrow> Inr (m', object)))
      else
        (case append_slice (growslice rt) (zero_entry rt) m (entries object)
                [\<lparr>Key = key, Value = value\<rparr>] of
           (s, m') \<Rightarrow> Inr (m', object\<lparr>entries := s\<rparr>)))"

definition Get :: "'v runtime \<Rightarrow> 'v Entry mem \<Rightarrow> Object \<Rightarrow> string \<Rightarrow> panic + ('v \<times> bool)" where
  "Get rt m object key =
     (let idx = findKeyIndex m object key in
      if idx \<ge> 0 then
        (case index_get m (entries object) idx of
           Inl p \<Rightarrow> Inl p
         | Inr e \<Rightarrow> Inr (Value e, True))
      else Inr (zeroV rt, False))"

definition Has :: "'v Entry mem \<Rightarrow> Object \<Rightarrow> string \<Rightarrow> bool" where
  "Has m object key = (findKeyIndex m object key \<ge> 0)"

definition Delete ::
  "'v runtime \<Rightarrow> 'v Entry mem \<Rightarrow> Object \<Rightarrow> string \<Rightarrow> panic + ('v Entry mem \<times> Object)" where
  "Delete rt m object key =
     (let idx = findKeyIndex m object key in
      if idx \<ge> 0 then
        (case slice_to (entries object) idx of
           Inl p \<Rightarrow> Inl p
         | Inr dst \<Rightarrow>
             (case slice_from m (entries object) (idx + 1) of
                Inl p \<Rightarrow> Inl p
              | Inr src \<Rightarrow>
                  (case append_slice (growslice rt) (zero_entry rt) m dst src of
                     (s, m') \<Rightarrow> Inr (m', object\<lparr>entries := s\<rparr>))))
      else Inr (m, object))"

definition Length :: "Object \<Rightarrow> nat" where
  "Length object = len (entries object)"

fun Keys_range :: "string mem \<Rightarrow> slice \<Rightarrow> 'v Entry list \<Rightarrow> int \<Rightarrow> panic + string mem" where
  "Keys_range sm keys [] i = Inr sm"
| "Keys_range sm keys (entry # rest) i =
     (case index_set sm keys i (Key entry) of
        Inl p \<Rightarrow> Inl p
      | Inr sm' \<Rightarrow> Keys_range sm' keys rest (i + 1))"

definition Keys :: "'v Entry mem \<Rightarrow> string mem \<Rightarrow> Object \<Rightarrow> panic + (slice \<times> string mem)" where
  "Keys m sm object =
     (case makeslice [] sm (int (len (entries object))) (int (len (entries object))) of
        Inl p \<Rightarrow> Inl p
      | Inr (keys, sm1) \<Rightarrow>
          (case Keys_range sm1 keys (elems m (entries object)) 0 of
             Inl p \<Rightarrow> Inl p
           | Inr sm2 \<Rightarrow> Inr (keys, sm2)))"

fun Values_range :: "'v mem \<Rightarrow> slice \<Rightarrow> 'v Entry list \<Rightarrow> int \<Rightarrow> panic + 'v mem" where
  "Values_range vm vals [] i = Inr vm"
| "Values_range vm vals (entry # rest) i =
     (case index_set vm vals i (Value entry) of
        Inl p \<Rightarrow> Inl p
      | Inr vm' \<Rightarrow> Values_range vm' vals rest (i + 1))"

definition Values ::
  "'v runtime \<Rightarrow> 'v Entry mem \<Rightarrow> 'v mem \<Rightarrow> Object \<Rightarrow> panic + (slice \<times> 'v mem)" where
  "Values rt m vm object =
     (case makeslice (zeroV rt) vm (int (len (entries object))) (int (len (entries object))) of
        Inl p \<Rightarrow> Inl p
      | Inr (vals, vm1) \<Rightarrow>
          (case Values_range vm1 vals (elems m (entries object)) 0 of
             Inl p \<Rightarrow> Inl p
           | Inr vm2 \<Rightarrow> Inr (vals, vm2)))"

definition Entries :: "'v runtime \<Rightarrow> 'v Entry mem \<Rightarrow> Object \<Rightarrow> panic + (slice \<times> 'v Entry mem)" where
  "Entries rt m object =
     (case makeslice (zero_entry rt) m (int (len (entries object))) (int (len (entries object))) of
        Inl p \<Rightarrow> Inl p
      | Inr (es, m1) \<Rightarrow>
          (case copy_slice m1 es (elems m1 (entries object)) of
             (n, m2) \<Rightarrow> Inr (es, m2)))"

definition Clone :: "'v runtime \<Rightarrow> 'v Entry mem \<Rightarrow> Object \<Rightarrow> panic + ('v Entry mem \<times> Object)" where
  "Clone rt m object =
     (case makeslice (zero_entry rt) m (int (len (entries object))) (int (len (entries object))) of
        Inl p \<Rightarrow> Inl p
      | Inr (es, m1) \<Rightarrow>
          (case copy_slice m1 es (elems m1 (entries object)) of
             (n, m2) \<Rightarrow> Inr (m2, \<lparr>entries = es\<rparr>)))"


section \<open>The streaming JSON codec\<close>

text \<open>
  The codec works on the token stream of \<^verbatim>\<open>jsontext\<close>, which is not part of this
  repository. A token kind is the byte \<^verbatim>\<open>jsontext.Kind\<close> uses; the source compares it with
  \<^verbatim>\<open>'{'\<close>, \<^verbatim>\<open>'}'\<close> and \<^verbatim>\<open>'"'\<close>.
\<close>

datatype token =
  Null | Bool bool | String string | Number string
  | BeginObject | EndObject | BeginArray | EndArray

fun Kind :: "token \<Rightarrow> char" where
  "Kind Null = CHR ''n''"
| "Kind (Bool b) = (if b then CHR ''t'' else CHR ''f'')"
| "Kind (String s) = CHR 0x22"
| "Kind (Number n) = CHR ''0''"
| "Kind BeginObject = CHR ''{''"
| "Kind EndObject = CHR ''}''"
| "Kind BeginArray = CHR ''[''"
| "Kind EndArray = CHR '']''"

text \<open>
  \<^verbatim>\<open>tok.String()\<close>: the payload of a string token. The decoder calls it on string tokens
  only; for the other kinds the text of the token stands in.
\<close>

fun token_String :: "token \<Rightarrow> string" where
  "token_String (String s) = s"
| "token_String (Number n) = n"
| "token_String Null = ''null''"
| "token_String (Bool b) = (if b then ''true'' else ''false'')"
| "token_String BeginObject = ''{''"
| "token_String EndObject = ''}''"
| "token_String BeginArray = ''[''"
| "token_String EndArray = '']''"

text \<open>
  The two errors of \<^verbatim>\<open>object.go\<close>, each wrapped with the kind that was read, and the errors
  of the token reader or writer (\<open>ErrToken\<close>) and of the host's value marshaller
  (\<open>ErrValue\<close>). The codec returns every error it receives as it is; a reader over a
  failing input, or a host that decodes a value with a method of that value, may hand it any
  error, the two of \<^verbatim>\<open>object.go\<close> included.
\<close>

datatype error =
  ErrExpectedObjectStart char
  | ErrExpectedStringKey char
  | ErrToken string
  | ErrValue string

subsection \<open>Encoding\<close>

text \<open>
  What the encoder side of the host supplies: the token writer, the buffer behind a new
  encoder, the test whether a value implements \<^verbatim>\<open>OrderedMarshaler\<close> (giving its
  \<^verbatim>\<open>MarshalJSONTo\<close>), and the generic \<^verbatim>\<open>json.MarshalEncode\<close> with its
  \<^verbatim>\<open>Deterministic\<close> option. Each writes into the encoder and may return an error.
\<close>

record ('enc, 'v) host =
  NewEncoder :: 'enc
  Bytes :: "'enc \<Rightarrow> string"
  WriteToken :: "'enc \<Rightarrow> token \<Rightarrow> 'enc \<times> error option"
  asOrderedMarshaler :: "'v \<Rightarrow> ('enc \<Rightarrow> 'enc \<times> error option) option"
  MarshalEncode :: "'enc \<Rightarrow> 'v \<Rightarrow> bool \<Rightarrow> 'enc \<times> error option"

fun MarshalJSONTo_range ::
  "('enc, 'v) host \<Rightarrow> 'v Entry list \<Rightarrow> 'enc \<Rightarrow> 'enc \<times> error option" where
  "MarshalJSONTo_range J [] enc = (enc, None)"
| "MarshalJSONTo_range J (entry # rest) enc =
     (case WriteToken J enc (String (Key entry)) of
        (enc1, Some err) \<Rightarrow> (enc1, Some err)
      | (enc1, None) \<Rightarrow>
          (case (case asOrderedMarshaler J (Value entry) of
                   Some orderedMarshaler \<Rightarrow> orderedMarshaler enc1
                 | None \<Rightarrow> MarshalEncode J enc1 (Value entry) True) of
             (enc2, Some err) \<Rightarrow> (enc2, Some err)
           | (enc2, None) \<Rightarrow> MarshalJSONTo_range J rest enc2))"

definition MarshalJSONTo ::
  "('enc, 'v) host \<Rightarrow> 'v Entry mem \<Rightarrow> Object \<Rightarrow> 'enc \<Rightarrow> 'enc \<times> error option" where
  "MarshalJSONTo J m object enc =
     (case WriteToken J enc BeginObject of
        (enc1, Some err) \<Rightarrow> (enc1, Some err)
      | (enc1, None) \<Rightarrow>
          (case MarshalJSONTo_range J (elems m (entries object)) enc1 of
             (enc2, Some err) \<Rightarrow> (enc2, Some err)
           | (enc2, None) \<Rightarrow> WriteToken J enc2 EndObject))"

definition MarshalJSON :: "('enc, 'v) host \<Rightarrow> 'v Entry mem \<Rightarrow> Object \<Rightarrow> error + string" where
  "MarshalJSON J m object =
     (case MarshalJSONTo J m object (NewEncoder J) of
        (enc, Some err) \<Rightarrow> Inl err
      | (enc, None) \<Rightarrow> Inr (Bytes J enc))"

text \<open>
  The emission sequence as the specification words it: \<^verbatim>\<open>BeginObject\<close>, then for each
  entry in stored order the key as a string token followed by the value, then
  \<^verbatim>\<open>EndObject\<close>; a value goes to its own \<^verbatim>\<open>MarshalJSONTo\<close> when it has the capability and
  to the generic marshaller in deterministic mode otherwise; the first failing step ends
  the emission.
\<close>

datatype 'v emission = EmitToken token | EmitValue 'v

definition MarshalTo_sequence :: "'v Entry list \<Rightarrow> 'v emission list" where
  "MarshalTo_sequence es =
     [EmitToken BeginObject]
       @ concat (map (\<lambda>e. [EmitToken (String (Key e)), EmitValue (Value e)]) es)
       @ [EmitToken EndObject]"

fun emit :: "('enc, 'v) host \<Rightarrow> 'v emission \<Rightarrow> 'enc \<Rightarrow> 'enc \<times> error option" where
  "emit J (EmitToken tok) enc = WriteToken J enc tok"
| "emit J (EmitValue v) enc =
     (case asOrderedMarshaler J v of
        Some orderedMarshaler \<Rightarrow> orderedMarshaler enc
      | None \<Rightarrow> MarshalEncode J enc v True)"

fun emit_all :: "('enc, 'v) host \<Rightarrow> 'v emission list \<Rightarrow> 'enc \<Rightarrow> 'enc \<times> error option" where
  "emit_all J [] enc = (enc, None)"
| "emit_all J (x # xs) enc =
     (case emit J x enc of
        (enc1, Some err) \<Rightarrow> (enc1, Some err)
      | (enc1, None) \<Rightarrow> emit_all J xs enc1)"

fun emitted_keys :: "'v emission list \<Rightarrow> string list" where
  "emitted_keys [] = []"
| "emitted_keys (EmitToken (String k) # xs) = k # emitted_keys xs"
| "emitted_keys (x # xs) = emitted_keys xs"

subsection \<open>Decoding\<close>

text \<open>
  The token decoder, on a finite input, delivers a finite sequence of tokens, possibly
  interrupted by a read error. \<^verbatim>\<open>ReadToken\<close> consumes one token; at a malformed place or at
  the end of the input it returns an error. \<^verbatim>\<open>PeekKind\<close> does not consume, and gives the
  invalid kind 0 where \<^verbatim>\<open>ReadToken\<close> would fail.
\<close>

datatype lexeme = Lex token | Malformed error

type_synonym decoder = "lexeme list"

fun ReadToken :: "decoder \<Rightarrow> (error + token) \<times> decoder" where
  "ReadToken [] = (Inl (ErrToken ''EOF''), [])"
| "ReadToken (Lex tok # dec) = (Inr tok, dec)"
| "ReadToken (Malformed e # dec) = (Inl e, Malformed e # dec)"

fun PeekKind :: "decoder \<Rightarrow> char" where
  "PeekKind [] = CHR 0x00"
| "PeekKind (Lex tok # dec) = Kind tok"
| "PeekKind (Malformed e # dec) = CHR 0x00"

text \<open>
  \<^verbatim>\<open>json.UnmarshalDecode(dec, &value)\<close> belongs to the host: from the decoder it produces a
  value and consumes some lexemes (\<open>n\<close> of them), or fails with an error, which the codec
  returns as it is. The loop of \<^verbatim>\<open>UnmarshalJSONFrom\<close> reads a key,
  has the host decode the value and appends the pair, with no lookup of the key among the
  entries already stored.
\<close>

type_synonym 'v unmarshal_decode = "decoder \<Rightarrow> error + ('v \<times> nat)"

function UnmarshalJSONFrom_loop ::
  "'v runtime \<Rightarrow> 'v unmarshal_decode \<Rightarrow> 'v Entry mem \<Rightarrow> Object \<Rightarrow> decoder
     \<Rightarrow> 'v Entry mem \<times> Object \<times> decoder \<times> error option" where
  "UnmarshalJSONFrom_loop rt UnmarshalDecode m object dec =
     (if PeekKind dec \<noteq> CHR ''}'' then
        (case ReadToken dec of
           (Inl err, dec1) \<Rightarrow> (m, object, dec1, Some err)
         | (Inr tok, dec1) \<Rightarrow>
             if Kind tok \<noteq> CHR 0x22 then (m, object, dec1, Some (ErrExpectedStringKey (Kind tok)))
             else
               (case UnmarshalDecode dec1 of
                  Inl err \<Rightarrow> (m, object, dec1, Some err)
                | Inr (value, n) \<Rightarrow>
                    (case append_slice (growslice rt) (zero_entry rt) m (entries object)
                            [\<lparr>Key = token_String tok, Value = value\<rparr>] of
                       (s, m') \<Rightarrow>
                         UnmarshalJSONFrom_loop rt UnmarshalDecode m'
                           (object\<lparr>entries := s\<rparr>) (drop n dec1))))
      else (m, object, dec, None))"
  by pat_completeness auto
termination
  apply (relation "measure (\<lambda>(rt, UnmarshalDecode, m, object, dec). length dec)")
   apply simp
  apply (case_tac dec rule: ReadToken.cases)
    apply auto
  done

declare UnmarshalJSONFrom_loop.simps [simp del]

definition UnmarshalJSONFrom ::
  "'v runtime \<Rightarrow> 'v unmarshal_decode \<Rightarrow> 'v Entry mem \<Rightarrow> Object \<Rightarrow> decoder
     \<Rightarrow> 'v Entry mem \<times> Object \<times> decoder \<times> error option" where
  "UnmarshalJSONFrom rt UnmarshalDecode m object dec =
     (let object0 = object\<lparr>entries := (entries object)\<lparr>len := 0\<rparr>\<rparr> in
      case ReadToken dec of
        (Inl err, dec1) \<Rightarrow> (m, object0, dec1, Some err)
      | (Inr tok, dec1) \<Rightarrow>
          if Kind tok \<noteq> CHR ''{'' then (m, object0, dec1, Some (ErrExpectedObjectStart (Kind tok)))
          else
            (case UnmarshalJSONFrom_loop rt UnmarshalDecode m object0 dec1 of
               (m1, object1, dec2, Some err) \<Rightarrow> (m1, object1, dec2, Some err)
             | (m1, object1, dec2, None) \<Rightarrow>
                 (case ReadToken dec2 of
                    (Inl err, dec3) \<Rightarrow> (m1, object1, dec3, Some err)
                  | (Inr tok', dec3) \<Rightarrow> (m1, object1, dec3, None))))"

text \<open>
  \<^verbatim>\<open>UnmarshalJSON(data)\<close> builds a decoder over the bytes (\<^verbatim>\<open>jsontext.NewDecoder\<close>, of the
  host) and decodes from it.
\<close>

definition UnmarshalJSON ::
  "'v runtime \<Rightarrow> (string \<Rightarrow> decoder) \<Rightarrow> 'v unmarshal_decode \<Rightarrow> 'v Entry mem \<Rightarrow> Object \<Rightarrow> string
     \<Rightarrow> 'v Entry mem \<times> Object \<times> decoder \<times> error option" where
  "UnmarshalJSON rt NewDecoder UnmarshalDecode m object data =
     UnmarshalJSONFrom rt UnmarshalDecode m object (NewDecoder data)"




text \<open>
  The token stream of a JSON object, given its members in source order: each member is a
  key, the value the host decodes, and the lexemes of that value.
\<close>

definition member_lexemes :: "(string \<times> 'v \<times> lexeme list) list \<Rightarrow> lexeme list" where
  "member_lexemes ps = concat (map (\<lambda>(k, v, ls). Lex (String k) # ls) ps)"

definition object_lexemes :: "(string \<times> 'v \<times> lexeme list) list \<Rightarrow> lexeme list" where
  "object_lexemes ps = Lex BeginObject # member_lexemes ps @ [Lex EndObject]"

definition member_entries :: "(string \<times> 'v \<times> lexeme list) list \<Rightarrow> 'v Entry list" where
  "member_entries ps = map (\<lambda>(k, v, ls). \<lparr>Key = k, Value = v\<rparr>) ps"


section \<open>Sequences of operations\<close>

text \<open>Mutations of a container, as a caller applies them one after the other.\<close>

datatype 'v mutation = MSet string 'v | MDelete string

fun apply_mutation ::
  "'v runtime \<Rightarrow> 'v Entry mem \<Rightarrow> Object \<Rightarrow> 'v mutation \<Rightarrow> panic + ('v Entry mem \<times> Object)" where
  "apply_mutation rt m object (MSet key value) = Set rt m object key value"
| "apply_mutation rt m object (MDelete key) = Delete rt m object key"

fun apply_mutations ::
  "'v runtime \<Rightarrow> 'v Entry mem \<Rightarrow> Object \<Rightarrow> 'v mutation list \<Rightarrow> panic + ('v Entry mem \<times> Object)" where
  "apply_mutations rt m object [] = Inr (m, object)"
| "apply_mutations rt m object (x # xs) =
     (case apply_mutation rt m object x of
        Inl p \<Rightarrow> Inl p
      | Inr (m', object') \<Rightarrow> apply_mutations rt m' object' xs)"

text \<open>
  The public operations that change a container, decoding included. A decoding that
  fails leaves the container as far as it was filled.
\<close>

datatype 'v operation = OpSet string 'v | OpDelete string | OpUnmarshalJSONFrom decoder

fun apply_operation ::
  "'v runtime \<Rightarrow> 'v unmarshal_decode \<Rightarrow> 'v Entry mem \<Rightarrow> Object \<Rightarrow> 'v operation
     \<Rightarrow> panic + ('v Entry mem \<times> Object)" where
  "apply_operation rt UD m object (OpSet key value) = Set rt m object key value"
| "apply_operation rt UD m object (OpDelete key) = Delete rt m object key"
| "apply_operation rt UD m object (OpUnmarshalJSONFrom dec) =
     (case UnmarshalJSONFrom rt UD m object dec of (m', object', dec', err) \<Rightarrow> Inr (m', object'))"

fun apply_operations ::
  "'v runtime \<Rightarrow> 'v unmarshal_decode \<Rightarrow> 'v Entry mem \<Rightarrow> Object \<Rightarrow> 'v operation list
     \<Rightarrow> panic + ('v Entry mem \<times> Object)" where
  "apply_operations rt UD m object [] = Inr (m, object)"
| "apply_operations rt UD m object (x # xs) =
     (case apply_operation rt UD m object x of
        Inl p \<Rightarrow> Inl p
      | Inr (m', object') \<Rightarrow> apply_operations rt UD m' object' xs)"

definition unique_keys :: "'v Entry mem \<Rightarrow> Object \<Rightarrow> bool" where
  "unique_keys m object = distinct (map Key (elems m (entries object)))"

text \<open>Every decoding of the sequence leaves a container whose keys are unique.\<close>

fun decodes_unique ::
  "'v runtime \<Rightarrow> 'v unmarshal_decode \<Rightarrow> 'v Entry mem \<Rightarrow> Object \<Rightarrow> 'v operation list \<Rightarrow> bool" where
  "decodes_unique rt UD m object [] = True"
| "decodes_unique rt UD m object (x # xs) =
     (case apply_operation rt UD m object x of
        Inl p \<Rightarrow> True
      | Inr (m', object') \<Rightarrow>
          (case x of OpUnmarshalJSONFrom dec \<Rightarrow> unique_keys m' object' | _ \<Rightarrow> True)
            \<and> decodes_unique rt UD m' object' xs)"


section \<open>An instance of the host, for scalar values\<close>

text \<open>
  Modelled from the spec: the token encoder and decoder over bytes and the generic value
  marshaller are dependencies of the repository, not part of it. The specification
  describes them as the incremental writer and reader of the JSON token kinds over a byte
  sink or source, for the wire format of RFC 8259, the writer emitting the object as its
  tokens with nothing between them but the separators. The instance below covers what
  the examples need: objects and arrays, the literals, numbers kept as they are written,
  and strings without escapes. Insignificant white space is skipped by the reader and
  never written by the writer, except for the newline with which the writer over a byte
  sink ends a complete top-level value.
\<close>

record encoder =
  buf :: string
  frames :: "(bool \<times> nat) list"

definition needs_escape :: "char \<Rightarrow> bool" where
  "needs_escape c = (c = CHR 0x22 \<or> c = CHR 0x5C \<or> (of_char c :: nat) < 32)"

fun is_scalar :: "token \<Rightarrow> bool" where
  "is_scalar Null = True"
| "is_scalar (Bool b) = True"
| "is_scalar (String s) = True"
| "is_scalar (Number n) = True"
| "is_scalar tok = False"

fun token_text :: "token \<Rightarrow> string" where
  "token_text (String s) = CHR 0x22 # s @ [CHR 0x22]"
| "token_text tok = token_String tok"

fun unsupported :: "token \<Rightarrow> bool" where
  "unsupported (String s) = (\<exists>c \<in> set s. needs_escape c)"
| "unsupported tok = False"

text \<open>
  A frame is an open object (\<open>True\<close>) or array with the number of tokens written in it:
  in an object a name is due at an even count and a colon precedes the value after it.
\<close>

fun separator :: "(bool \<times> nat) list \<Rightarrow> string" where
  "separator [] = []"
| "separator ((is_object, n) # fs) =
     (if n = 0 then [] else if is_object \<and> odd n then '':'' else '','')"

fun name_expected :: "(bool \<times> nat) list \<Rightarrow> bool" where
  "name_expected ((True, n) # fs) = even n"
| "name_expected fs = False"

fun bump :: "(bool \<times> nat) list \<Rightarrow> (bool \<times> nat) list" where
  "bump [] = []"
| "bump ((is_object, n) # fs) = (is_object, Suc n) # fs"

fun open_frame :: "token \<Rightarrow> (bool \<times> nat) list" where
  "open_frame BeginObject = [(True, 0)]"
| "open_frame BeginArray = [(False, 0)]"
| "open_frame tok = []"

definition top_level_newline :: "(bool \<times> nat) list \<Rightarrow> string" where
  "top_level_newline fs = (if fs = [] then [CHR 0x0A] else [])"

fun compact_WriteToken :: "encoder \<Rightarrow> token \<Rightarrow> encoder \<times> error option" where
  "compact_WriteToken enc EndObject =
     (case frames enc of
        (True, n) # fs \<Rightarrow>
          if even n then (\<lparr>buf = buf enc @ ''}'' @ top_level_newline fs, frames = fs\<rparr>, None)
          else (enc, Some (ErrToken ''missing value''))
      | _ \<Rightarrow> (enc, Some (ErrToken ''mismatched delimiter'')))"
| "compact_WriteToken enc EndArray =
     (case frames enc of
        (False, n) # fs \<Rightarrow> (\<lparr>buf = buf enc @ '']'' @ top_level_newline fs, frames = fs\<rparr>, None)
      | _ \<Rightarrow> (enc, Some (ErrToken ''mismatched delimiter'')))"
| "compact_WriteToken enc tok =
     (if name_expected (frames enc) \<and> Kind tok \<noteq> CHR 0x22
        then (enc, Some (ErrToken ''object name must be a string''))
      else if unsupported tok
        then (enc, Some (ErrToken ''string escapes are not modelled''))
      else (\<lparr>buf = buf enc @ separator (frames enc) @ token_text tok
                     @ top_level_newline (open_frame tok @ bump (frames enc)),
             frames = open_frame tok @ bump (frames enc)\<rparr>, None))"

definition is_space :: "char \<Rightarrow> bool" where
  "is_space c = (c = CHR 0x20 \<or> c = CHR 0x09 \<or> c = CHR 0x0A \<or> c = CHR 0x0D)"

definition is_number_char :: "char \<Rightarrow> bool" where
  "is_number_char c = (c \<in> set ''0123456789+-.eE'')"

function NewDecoder_lex :: "string \<Rightarrow> decoder" where
  "NewDecoder_lex [] = []"
| "NewDecoder_lex (c # cs) =
     (if is_space c \<or> c = CHR '','' \<or> c = CHR '':'' then NewDecoder_lex cs
      else if c = CHR ''{'' then Lex BeginObject # NewDecoder_lex cs
      else if c = CHR ''}'' then Lex EndObject # NewDecoder_lex cs
      else if c = CHR ''['' then Lex BeginArray # NewDecoder_lex cs
      else if c = CHR '']'' then Lex EndArray # NewDecoder_lex cs
      else if c = CHR 0x22 then
        (if dropWhile (\<lambda>x. x \<noteq> CHR 0x22) cs = [] then [Malformed (ErrToken ''unterminated string'')]
         else if \<exists>x \<in> set (takeWhile (\<lambda>x. x \<noteq> CHR 0x22) cs). needs_escape x
           then [Malformed (ErrToken ''string escapes are not modelled'')]
         else Lex (String (takeWhile (\<lambda>x. x \<noteq> CHR 0x22) cs))
                # NewDecoder_lex (tl (dropWhile (\<lambda>x. x \<noteq> CHR 0x22) cs)))
      else if c \<in> set ''-0123456789'' then
        Lex (Number (c # takeWhile is_number_char cs)) # NewDecoder_lex (dropWhile is_number_char cs)
      else if take 4 (c # cs) = ''true'' then Lex (Bool True) # NewDecoder_lex (drop 3 cs)
      else if take 5 (c # cs) = ''false'' then Lex (Bool False) # NewDecoder_lex (drop 4 cs)
      else if take 4 (c # cs) = ''null'' then Lex Null # NewDecoder_lex (drop 3 cs)
      else [Malformed (ErrToken ''invalid character'')])"
  by pat_completeness auto
termination
  apply (relation "measure length")
           apply simp_all
   apply (metis length_dropWhile_le length_tl diff_le_self le_trans le_imp_less_Suc)
  apply (simp add: length_dropWhile_le le_imp_less_Suc)
  done

declare NewDecoder_lex.simps [simp del]

text \<open>The generic marshaller and unmarshaller for a value that is one scalar token.\<close>

fun scalar_UnmarshalDecode :: "token unmarshal_decode" where
  "scalar_UnmarshalDecode [] = Inl (ErrToken ''EOF'')"
| "scalar_UnmarshalDecode (Malformed e # dec) = Inl e"
| "scalar_UnmarshalDecode (Lex tok # dec) =
     (if is_scalar tok then Inr (tok, 1) else Inl (ErrValue ''value is not a scalar''))"

definition scalar_host :: "(encoder, token) host" where
  "scalar_host =
     \<lparr>NewEncoder = \<lparr>buf = [], frames = []\<rparr>,
      Bytes = buf,
      WriteToken = compact_WriteToken,
      asOrderedMarshaler = (\<lambda>v. None),
      MarshalEncode = (\<lambda>enc v deterministic.
         if is_scalar v then compact_WriteToken enc v
         else (enc, Some (ErrValue ''value is not a scalar'')))\<rparr>"

text \<open>
  A runtime of a 64-bit platform: the largest allocation is \<open>2 ^ 48\<close> bytes, an entry with
  a value of two words takes 32 of them.
\<close>

definition scalar_runtime :: "token runtime" where
  "scalar_runtime =
     \<lparr>growslice = (\<lambda>old needed. 2 * needed), zeroV = Null, maxElems = 2 ^ 48 div 32\<rparr>"



section \<open>Properties of slices and of the key lookup\<close>

lemma makeslice_limit_within:
  "l \<le> int lim \<Longrightarrow> c \<le> int lim \<Longrightarrow> makeslice_limit lim z m l c = makeslice z m l c"
  by (auto simp: makeslice_limit_def makeslice_def)

lemma findKeyIndex_range_absent:
  "key \<notin> Key ` set es \<Longrightarrow> findKeyIndex_range es key i = - 1"
  by (induction es arbitrary: i) auto

lemma findKeyIndex_range_first:
  "p < length es \<Longrightarrow> Key (es ! p) = key \<Longrightarrow> \<forall>q<p. Key (es ! q) \<noteq> key
     \<Longrightarrow> findKeyIndex_range es key i = i + int p"
proof (induction es arbitrary: i p)
  case Nil
  then show ?case by simp
next
  case (Cons e es)
  show ?case
  proof (cases p)
    case 0
    with Cons.prems show ?thesis by simp
  next
    case (Suc p')
    from Cons.prems Suc have h0: "Key e \<noteq> key" by auto
    from Cons.prems Suc have "\<forall>q<p'. Key (es ! q) \<noteq> key" by auto
    with Cons.prems Suc Cons.IH[of p' "i + 1"] h0 show ?thesis by simp
  qed
qed

lemma first_occurrence_exists:
  "key \<in> Key ` set es \<Longrightarrow> \<exists>p<length es. Key (es ! p) = key \<and> (\<forall>q<p. Key (es ! q) \<noteq> key)"
proof (induction es)
  case Nil
  then show ?case by simp
next
  case (Cons e es)
  show ?case
  proof (cases "Key e = key")
    case True
    then show ?thesis by (intro exI[of _ 0]) simp
  next
    case False
    with Cons obtain p where p: "p < length es" "Key (es ! p) = key" "\<forall>q<p. Key (es ! q) \<noteq> key"
      by auto
    show ?thesis
    proof (intro exI[of _ "Suc p"] conjI allI impI)
      fix q assume "q < Suc p"
      with p False show "Key ((e # es) ! q) \<noteq> key" by (cases q) auto
    qed (use p in auto)
  qed
qed

lemma valid_slice_backing: "valid_slice m s \<Longrightarrow> backing m s = m ! array s"
  by (simp add: valid_slice_def backing_def)

lemma valid_slice_length_elems: "valid_slice m s \<Longrightarrow> length (elems m s) = len s"
  by (simp add: valid_slice_def backing_def elems_def)

lemma append_slice_elems:
  assumes "valid_slice m s" "append_slice g z m s xs = (s', m')"
  shows "elems m' s' = elems m s @ xs"
  using assms
  by (auto simp: append_slice_def Let_def valid_slice_def elems_def backing_def split: if_splits)

lemma append_slice_valid:
  assumes "valid_slice m s" "append_slice g z m s xs = (s', m')"
  shows "valid_slice m' s'"
  using assms
  by (auto simp: append_slice_def Let_def valid_slice_def elems_def backing_def split: if_splits)

lemma append_slice_frame:
  assumes "append_slice g z m s xs = (s', m')" "a < length m" "a \<noteq> array s"
  shows "m' ! a = m ! a"
  using assms
  by (auto simp: append_slice_def Let_def nth_append split: if_splits)

lemma append_slice_grows:
  assumes "append_slice g z m s xs = (s', m')"
  shows "length m \<le> length m'" "array s' = array s \<or> (array s' = length m \<and> length m < length m')"
  using assms
  by (auto simp: append_slice_def Let_def split: if_splits)

lemma index_set_elems:
  assumes "valid_slice m s" "index_set m s i x = Inr m'"
  shows "elems m' s = (elems m s)[nat i := x]" "valid_slice m' s" "length m' = length m"
  using assms
  by (auto simp: index_set_def valid_slice_def elems_def backing_def take_update_swap split: if_splits)

lemma index_set_frame:
  assumes "index_set m s i x = Inr m'" "a \<noteq> array s"
  shows "m' ! a = m ! a"
  using assms
  by (auto simp: index_set_def split: if_splits)

lemma Set_present:
  assumes v: "valid_slice m (entries object)"
    and p: "p < len (entries object)" "Key (elems m (entries object) ! p) = k"
      "\<forall>q<p. Key (elems m (entries object) ! q) \<noteq> k"
  shows "Set rt m object k v =
     Inr (m[array (entries object) := (m ! array (entries object))
              [p := (elems m (entries object) ! p)\<lparr>Value := v\<rparr>]], object)"
proof -
  have "findKeyIndex m object k = int p"
    using findKeyIndex_range_first[of p "elems m (entries object)" k 0] p v
    by (simp add: findKeyIndex_def valid_slice_length_elems)
  moreover have "elems m (entries object) ! p = m ! array (entries object) ! p"
    using v p by (simp add: elems_def valid_slice_backing)
  ultimately show ?thesis
    using v p by (simp add: Set_def index_get_def index_set_def valid_slice_backing)
qed

lemma Set_absent:
  assumes "k \<notin> Key ` set (elems m (entries object))"
  shows "Set rt m object k v =
     (case append_slice (growslice rt) (zero_entry rt) m (entries object) [\<lparr>Key = k, Value = v\<rparr>] of
        (s, m') \<Rightarrow> Inr (m', object\<lparr>entries := s\<rparr>))"
  using findKeyIndex_range_absent[OF assms, of 0]
  by (simp add: Set_def findKeyIndex_def)

lemma Delete_present:
  assumes v: "valid_slice m (entries object)"
    and p: "p < len (entries object)" "Key (elems m (entries object) ! p) = k"
      "\<forall>q<p. Key (elems m (entries object) ! q) \<noteq> k"
  shows "Delete rt m object k =
     Inr (m[array (entries object) :=
              take p (m ! array (entries object)) @ drop (Suc p) (elems m (entries object))
                @ drop (len (entries object) - 1) (m ! array (entries object))],
          object\<lparr>entries := (entries object)\<lparr>len := len (entries object) - 1\<rparr>\<rparr>)"
proof -
  have "findKeyIndex m object k = int p"
    using findKeyIndex_range_first[of p "elems m (entries object)" k 0] p v
    by (simp add: findKeyIndex_def valid_slice_length_elems)
  moreover have "len (entries object) \<le> cap (entries object)"
    using v by (auto simp: valid_slice_def)
  moreover have "length (elems m (entries object)) = len (entries object)"
    using v by (rule valid_slice_length_elems)
  moreover have "p + (len (entries object) - Suc p) = len (entries object) - 1"
    using p by simp
  moreover have "len (entries object) - Suc 0 \<le> cap (entries object)"
    using v by (auto simp: valid_slice_def)
  ultimately show ?thesis
    using v p
    by (simp add: Delete_def slice_to_def slice_from_def append_slice_def Let_def
        backing_def valid_slice_def nat_add_distrib)
qed

lemma Delete_absent:
  assumes "k \<notin> Key ` set (elems m (entries object))"
  shows "Delete rt m object k = Inr (m, object)"
  using findKeyIndex_range_absent[OF assms, of 0]
  by (simp add: Delete_def findKeyIndex_def)

lemma elems_list_update:
  "a < length m \<Longrightarrow> array s = a \<Longrightarrow> elems (m[a := A]) s = take (len s) A"
  by (simp add: elems_def backing_def)


section \<open>Properties of the codec\<close>

lemma emit_all_append:
  "emit_all J (xs @ ys) enc =
     (case emit_all J xs enc of
        (enc1, Some err) \<Rightarrow> (enc1, Some err)
      | (enc1, None) \<Rightarrow> emit_all J ys enc1)"
  by (induction xs arbitrary: enc) (auto split: prod.splits option.splits)

lemma MarshalJSONTo_range_emit_all:
  "MarshalJSONTo_range J es enc =
     emit_all J (concat (map (\<lambda>e. [EmitToken (String (Key e)), EmitValue (Value e)]) es)) enc"
  by (induction es arbitrary: enc) (auto split: prod.splits option.splits)

lemma MarshalJSONTo_emit_all:
  "MarshalJSONTo J m object enc = emit_all J (MarshalTo_sequence (elems m (entries object))) enc"
  by (simp add: MarshalJSONTo_def MarshalTo_sequence_def MarshalJSONTo_range_emit_all
      emit_all_append split: prod.splits option.splits)

lemma emitted_keys_append: "emitted_keys (xs @ ys) = emitted_keys xs @ emitted_keys ys"
  by (induction xs rule: emitted_keys.induct) simp_all

lemma emitted_keys_members:
  "emitted_keys (concat (map (\<lambda>e. [EmitToken (String (Key e)), EmitValue (Value e)]) es)) = map Key es"
  by (induction es) simp_all

lemma emitted_keys_sequence: "emitted_keys (MarshalTo_sequence es) = map Key es"
  by (simp add: MarshalTo_sequence_def emitted_keys_append emitted_keys_members)


lemma loop_stop:
  "PeekKind dec = CHR ''}'' \<Longrightarrow> UnmarshalJSONFrom_loop rt UD m object dec = (m, object, dec, None)"
  by (subst UnmarshalJSONFrom_loop.simps) simp

lemma loop_read_error:
  "PeekKind dec \<noteq> CHR ''}'' \<Longrightarrow> ReadToken dec = (Inl e, dec1) \<Longrightarrow>
     UnmarshalJSONFrom_loop rt UD m object dec = (m, object, dec1, Some e)"
  by (subst UnmarshalJSONFrom_loop.simps) simp

lemma loop_not_string:
  "PeekKind dec \<noteq> CHR ''}'' \<Longrightarrow> ReadToken dec = (Inr tok, dec1) \<Longrightarrow> Kind tok \<noteq> CHR 0x22 \<Longrightarrow>
     UnmarshalJSONFrom_loop rt UD m object dec =
       (m, object, dec1, Some (ErrExpectedStringKey (Kind tok)))"
  by (subst UnmarshalJSONFrom_loop.simps) simp

lemma loop_value_error:
  "PeekKind dec \<noteq> CHR ''}'' \<Longrightarrow> ReadToken dec = (Inr tok, dec1) \<Longrightarrow> Kind tok = CHR 0x22 \<Longrightarrow>
     UD dec1 = Inl e \<Longrightarrow>
     UnmarshalJSONFrom_loop rt UD m object dec = (m, object, dec1, Some e)"
  by (subst UnmarshalJSONFrom_loop.simps) simp

lemma loop_pair:
  "PeekKind dec \<noteq> CHR ''}'' \<Longrightarrow> ReadToken dec = (Inr tok, dec1) \<Longrightarrow> Kind tok = CHR 0x22 \<Longrightarrow>
     UD dec1 = Inr (v, n) \<Longrightarrow>
     append_slice (growslice rt) (zero_entry rt) m (entries object)
       [\<lparr>Key = token_String tok, Value = v\<rparr>] = (s, m') \<Longrightarrow>
     UnmarshalJSONFrom_loop rt UD m object dec =
       UnmarshalJSONFrom_loop rt UD m' (object\<lparr>entries := s\<rparr>) (drop n dec1)"
  by (subst UnmarshalJSONFrom_loop.simps) simp

lemma loop_members:
  assumes "\<forall>(k, v, ls) \<in> set ps. \<forall>rest. UD (ls @ rest) = Inr (v, length ls)"
    and "valid_slice m (entries object)"
  shows "\<exists>m' object'.
     UnmarshalJSONFrom_loop rt UD m object (member_lexemes ps @ Lex EndObject # rest) =
       (m', object', Lex EndObject # rest, None) \<and>
     valid_slice m' (entries object') \<and>
     elems m' (entries object') = elems m (entries object) @ member_entries ps"
  using assms
proof (induction ps arbitrary: m object)
  case Nil
  then show ?case by (simp add: member_lexemes_def member_entries_def loop_stop)
next
  case (Cons p ps)
  obtain k v ls where p: "p = (k, v, ls)" by (cases p)
  let ?d1 = "ls @ member_lexemes ps @ Lex EndObject # rest"
  have ud: "UD ?d1 = Inr (v, length ls)"
    using Cons.prems(1) p by auto
  obtain s m1 where a: "append_slice (growslice rt) (zero_entry rt) m (entries object)
      [\<lparr>Key = token_String (String k), Value = v\<rparr>] = (s, m1)"
    by (cases "append_slice (growslice rt) (zero_entry rt) m (entries object)
      [\<lparr>Key = token_String (String k), Value = v\<rparr>]")
  have step: "UnmarshalJSONFrom_loop rt UD m object
      (member_lexemes (p # ps) @ Lex EndObject # rest) =
      UnmarshalJSONFrom_loop rt UD m1 (object\<lparr>entries := s\<rparr>)
        (member_lexemes ps @ Lex EndObject # rest)"
    using loop_pair[of "Lex (String k) # ?d1" "String k" ?d1 UD v "length ls" rt m object s m1] ud a
    by (simp add: member_lexemes_def p)
  have v1: "valid_slice m1 (entries (object\<lparr>entries := s\<rparr>))"
    using append_slice_valid[OF Cons.prems(2) a] by simp
  have e1: "elems m1 (entries (object\<lparr>entries := s\<rparr>)) = elems m (entries object) @ [\<lparr>Key = k, Value = v\<rparr>]"
    using append_slice_elems[OF Cons.prems(2) a] by simp
  from Cons.prems(1) have "\<forall>(k, v, ls) \<in> set ps. \<forall>rest. UD (ls @ rest) = Inr (v, length ls)"
    by auto
  from Cons.IH[OF this v1] obtain m' object' where
    "UnmarshalJSONFrom_loop rt UD m1 (object\<lparr>entries := s\<rparr>)
        (member_lexemes ps @ Lex EndObject # rest) = (m', object', Lex EndObject # rest, None)"
    "valid_slice m' (entries object')"
    "elems m' (entries object') = elems m1 (entries (object\<lparr>entries := s\<rparr>)) @ member_entries ps"
    by blast
  with step e1 show ?case
    by (auto simp: member_entries_def p)
qed

lemma UnmarshalJSONFrom_members:
  assumes "\<forall>(k, v, ls) \<in> set ps. \<forall>rest. UD (ls @ rest) = Inr (v, length ls)"
    and "valid_slice m (entries object)"
  shows "\<exists>m' object'.
     UnmarshalJSONFrom rt UD m object (object_lexemes ps @ rest) = (m', object', rest, None) \<and>
     valid_slice m' (entries object') \<and>
     elems m' (entries object') = member_entries ps"
proof -
  let ?o0 = "object\<lparr>entries := (entries object)\<lparr>len := 0\<rparr>\<rparr>"
  have v0: "valid_slice m (entries ?o0)"
    using assms(2) by (simp add: valid_slice_def)
  have e0: "elems m (entries ?o0) = []"
    by (simp add: elems_def)
  from loop_members[OF assms(1) v0, of rt rest] obtain m' object' where
    l: "UnmarshalJSONFrom_loop rt UD m ?o0 (member_lexemes ps @ Lex EndObject # rest) =
       (m', object', Lex EndObject # rest, None)"
    and r: "valid_slice m' (entries object')"
      "elems m' (entries object') = elems m (entries ?o0) @ member_entries ps"
    by blast
  have "UnmarshalJSONFrom rt UD m object (object_lexemes ps @ rest) = (m', object', rest, None)"
    using l by (simp add: UnmarshalJSONFrom_def object_lexemes_def)
  with r e0 show ?thesis by simp
qed





section \<open>Frame properties of the store\<close>

text \<open>
  What a mutation of one container or one returned sequence can reach: the array its header
  names, and arrays allocated afterwards. Every other array of the store stays as it was.
\<close>

lemma MarshalJSON_elems:
  "elems m' (entries object') = elems m (entries object) \<Longrightarrow>
   MarshalJSON J m' object' = MarshalJSON J m object"
  by (simp add: MarshalJSON_def MarshalJSONTo_emit_all)

lemma Set_frame:
  assumes v: "valid_slice m (entries object)"
  shows "\<exists>m' object'. Set rt m object k x = Inr (m', object') \<and>
     valid_slice m' (entries object') \<and> length m \<le> length m' \<and>
     (array (entries object') = array (entries object) \<or> length m \<le> array (entries object')) \<and>
     (\<forall>a<length m. a \<noteq> array (entries object) \<longrightarrow> m' ! a = m ! a)"
proof (cases "k \<in> Key ` set (elems m (entries object))")
  case True
  from first_occurrence_exists[OF True] obtain p where
    p: "p < length (elems m (entries object))" "Key (elems m (entries object) ! p) = k"
      "\<forall>q<p. Key (elems m (entries object) ! q) \<noteq> k"
    by blast
  have pl: "p < len (entries object)"
    using p(1) v by (simp add: valid_slice_length_elems)
  show ?thesis
    using Set_present[OF v pl p(2) p(3), of rt x] v
    by (auto simp: valid_slice_def)
next
  case False
  obtain s m' where a: "append_slice (growslice rt) (zero_entry rt) m (entries object)
      [\<lparr>Key = k, Value = x\<rparr>] = (s, m')"
    by (cases "append_slice (growslice rt) (zero_entry rt) m (entries object) [\<lparr>Key = k, Value = x\<rparr>]")
  show ?thesis
    using Set_absent[OF False, of rt x] a append_slice_valid[OF v a] append_slice_grows[OF a]
      append_slice_frame[OF a]
    by auto
qed

lemma Delete_frame:
  assumes v: "valid_slice m (entries object)"
  shows "\<exists>m' object'. Delete rt m object k = Inr (m', object') \<and>
     valid_slice m' (entries object') \<and> length m \<le> length m' \<and>
     (array (entries object') = array (entries object) \<or> length m \<le> array (entries object')) \<and>
     (\<forall>a<length m. a \<noteq> array (entries object) \<longrightarrow> m' ! a = m ! a)"
proof (cases "k \<in> Key ` set (elems m (entries object))")
  case True
  from first_occurrence_exists[OF True] obtain p where
    p: "p < length (elems m (entries object))" "Key (elems m (entries object) ! p) = k"
      "\<forall>q<p. Key (elems m (entries object) ! q) \<noteq> k"
    by blast
  have pl: "p < len (entries object)"
    using p(1) v by (simp add: valid_slice_length_elems)
  have le: "length (elems m (entries object)) = len (entries object)"
    using v by (rule valid_slice_length_elems)
  show ?thesis
    using Delete_present[OF v pl p(2) p(3), of rt] v pl le
    by (auto simp: valid_slice_def)
next
  case False
  show ?thesis
    using Delete_absent[OF False, of rt] v by auto
qed

lemma apply_mutation_frame:
  assumes v: "valid_slice m (entries object)"
  shows "\<exists>m' object'. apply_mutation rt m object x = Inr (m', object') \<and>
     valid_slice m' (entries object') \<and> length m \<le> length m' \<and>
     (array (entries object') = array (entries object) \<or> length m \<le> array (entries object')) \<and>
     (\<forall>a<length m. a \<noteq> array (entries object) \<longrightarrow> m' ! a = m ! a)"
  using Set_frame[OF v] Delete_frame[OF v] by (cases x) simp_all

lemma apply_mutations_frame:
  assumes "valid_slice m (entries object)"
  shows "\<exists>m' object'. apply_mutations rt m object xs = Inr (m', object') \<and>
     valid_slice m' (entries object') \<and> length m \<le> length m' \<and>
     (array (entries object') = array (entries object) \<or> length m \<le> array (entries object')) \<and>
     (\<forall>a<length m. a \<noteq> array (entries object) \<longrightarrow> m' ! a = m ! a)"
  using assms
proof (induction xs arbitrary: m object)
  case Nil
  then show ?case by simp
next
  case (Cons x xs)
  from apply_mutation_frame[OF Cons.prems, of rt x] obtain m1 o1 where
    s: "apply_mutation rt m object x = Inr (m1, o1)" "valid_slice m1 (entries o1)"
      "length m \<le> length m1"
      "array (entries o1) = array (entries object) \<or> length m \<le> array (entries o1)"
      "\<forall>a<length m. a \<noteq> array (entries object) \<longrightarrow> m1 ! a = m ! a"
    by blast
  from Cons.IH[OF s(2)] obtain m2 o2 where
    t: "apply_mutations rt m1 o1 xs = Inr (m2, o2)" "valid_slice m2 (entries o2)"
      "length m1 \<le> length m2"
      "array (entries o2) = array (entries o1) \<or> length m1 \<le> array (entries o2)"
      "\<forall>a<length m1. a \<noteq> array (entries o1) \<longrightarrow> m2 ! a = m1 ! a"
    by blast
  have "\<forall>a<length m. a \<noteq> array (entries object) \<longrightarrow> m2 ! a = m ! a"
  proof (intro allI impI)
    fix a assume a: "a < length m" "a \<noteq> array (entries object)"
    then have "a < length m1" "a \<noteq> array (entries o1)" using s(3) s(4) by auto
    then show "m2 ! a = m ! a" using t(5) s(5) a by simp
  qed
  moreover have "array (entries o2) = array (entries object) \<or> length m \<le> array (entries o2)"
    using s(3) s(4) t(4) by auto
  moreover have "length m \<le> length m2" using s(3) t(3) by simp
  ultimately show ?case using s(1) t(1) t(2) by simp
qed

lemma Clone_result:
  assumes v: "valid_slice m (entries object)"
  shows "Clone rt m object =
     Inr (m @ [elems m (entries object)],
          \<lparr>entries = \<lparr>array = length m, len = len (entries object), cap = len (entries object)\<rparr>\<rparr>)"
proof -
  have e: "elems (m @ [replicate (len (entries object)) (zero_entry rt)]) (entries object) =
      elems m (entries object)"
    using v by (simp add: elems_def backing_def valid_slice_def nth_append)
  have l: "length (elems m (entries object)) = len (entries object)"
    using v by (rule valid_slice_length_elems)
  show ?thesis
    unfolding Clone_def makeslice_def
    by (simp add: e copy_slice_def Let_def l backing_def)
qed

lemma Entries_result:
  assumes v: "valid_slice m (entries object)"
  shows "Entries rt m object =
     Inr (\<lparr>array = length m, len = len (entries object), cap = len (entries object)\<rparr>,
          m @ [elems m (entries object)])"
proof -
  have e: "elems (m @ [replicate (len (entries object)) (zero_entry rt)]) (entries object) =
      elems m (entries object)"
    using v by (simp add: elems_def backing_def valid_slice_def nth_append)
  have l: "length (elems m (entries object)) = len (entries object)"
    using v by (rule valid_slice_length_elems)
  show ?thesis
    unfolding Entries_def makeslice_def
    by (simp add: e copy_slice_def Let_def l backing_def)
qed

lemma elems_frame:
  "array s < length m \<Longrightarrow> m' ! array s = m ! array s \<Longrightarrow> length m \<le> length m' \<Longrightarrow>
   elems m' s = elems m s"
  by (simp add: elems_def backing_def)

lemma Keys_range_result:
  assumes "valid_slice sm keys" "j + length es \<le> len keys"
  shows "\<exists>sm'. Keys_range sm keys es (int j) = Inr sm' \<and> length sm' = length sm \<and>
     (\<forall>a. a \<noteq> array keys \<longrightarrow> sm' ! a = sm ! a) \<and>
     sm' ! array keys =
       take j (sm ! array keys) @ map Key es @ drop (j + length es) (sm ! array keys)"
  using assms
proof (induction es arbitrary: sm j)
  case Nil
  then show ?case by simp
next
  case (Cons e es)
  let ?sm1 = "sm[array keys := (sm ! array keys)[j := Key e]]"
  have jl: "j < len keys" using Cons.prems(2) by simp
  have jc: "j < length (sm ! array keys)" using Cons.prems jl by (simp add: valid_slice_def)
  have s: "index_set sm keys (int j) (Key e) = Inr ?sm1"
    using Cons.prems(1) jl by (simp add: index_set_def valid_slice_backing)
  have v1: "valid_slice ?sm1 keys"
    using Cons.prems(1) by (simp add: valid_slice_def)
  have "Suc j + length es \<le> len keys" using Cons.prems(2) by simp
  from Cons.IH[OF v1 this] obtain sm' where
    r: "Keys_range ?sm1 keys es (int (Suc j)) = Inr sm'" "length sm' = length ?sm1"
      "\<forall>a. a \<noteq> array keys \<longrightarrow> sm' ! a = ?sm1 ! a"
      "sm' ! array keys = take (Suc j) (?sm1 ! array keys) @ map Key es
          @ drop (Suc j + length es) (?sm1 ! array keys)"
    by blast
  have a: "array keys < length sm" using Cons.prems(1) by (simp add: valid_slice_def)
  have t: "take (Suc j) ((sm ! array keys)[j := Key e]) = take j (sm ! array keys) @ [Key e]"
    using jc by (simp add: take_Suc_conv_app_nth)
  have "int (Suc j) = int j + 1" by simp
  then have k: "Keys_range sm keys (e # es) (int j) = Inr sm'"
    using s r(1) by (simp only: Keys_range.simps sum.case)
  have "sm' ! array keys =
      take j (sm ! array keys) @ map Key (e # es) @ drop (j + length (e # es)) (sm ! array keys)"
    using r(4) a t by simp
  moreover have "\<forall>a. a \<noteq> array keys \<longrightarrow> sm' ! a = sm ! a"
    using r(3) by simp
  ultimately show ?case using k r(2) by simp
qed

lemma Values_range_result:
  assumes "valid_slice vm vals" "j + length es \<le> len vals"
  shows "\<exists>vm'. Values_range vm vals es (int j) = Inr vm' \<and> length vm' = length vm \<and>
     (\<forall>a. a \<noteq> array vals \<longrightarrow> vm' ! a = vm ! a) \<and>
     vm' ! array vals =
       take j (vm ! array vals) @ map Value es @ drop (j + length es) (vm ! array vals)"
  using assms
proof (induction es arbitrary: vm j)
  case Nil
  then show ?case by simp
next
  case (Cons e es)
  let ?vm1 = "vm[array vals := (vm ! array vals)[j := Value e]]"
  have jl: "j < len vals" using Cons.prems(2) by simp
  have jc: "j < length (vm ! array vals)" using Cons.prems jl by (simp add: valid_slice_def)
  have s: "index_set vm vals (int j) (Value e) = Inr ?vm1"
    using Cons.prems(1) jl by (simp add: index_set_def valid_slice_backing)
  have v1: "valid_slice ?vm1 vals"
    using Cons.prems(1) by (simp add: valid_slice_def)
  have "Suc j + length es \<le> len vals" using Cons.prems(2) by simp
  from Cons.IH[OF v1 this] obtain vm' where
    r: "Values_range ?vm1 vals es (int (Suc j)) = Inr vm'" "length vm' = length ?vm1"
      "\<forall>a. a \<noteq> array vals \<longrightarrow> vm' ! a = ?vm1 ! a"
      "vm' ! array vals = take (Suc j) (?vm1 ! array vals) @ map Value es
          @ drop (Suc j + length es) (?vm1 ! array vals)"
    by blast
  have a: "array vals < length vm" using Cons.prems(1) by (simp add: valid_slice_def)
  have t: "take (Suc j) ((vm ! array vals)[j := Value e]) = take j (vm ! array vals) @ [Value e]"
    using jc by (simp add: take_Suc_conv_app_nth)
  have "int (Suc j) = int j + 1" by simp
  then have k: "Values_range vm vals (e # es) (int j) = Inr vm'"
    using s r(1) by (simp only: Values_range.simps sum.case)
  have "vm' ! array vals =
      take j (vm ! array vals) @ map Value (e # es) @ drop (j + length (e # es)) (vm ! array vals)"
    using r(4) a t by simp
  moreover have "\<forall>a. a \<noteq> array vals \<longrightarrow> vm' ! a = vm ! a"
    using r(3) by simp
  ultimately show ?case using k r(2) by simp
qed

lemma Keys_result:
  assumes v: "valid_slice m (entries object)"
  shows "Keys m sm object =
     Inr (\<lparr>array = length sm, len = len (entries object), cap = len (entries object)\<rparr>,
          sm @ [map Key (elems m (entries object))])"
proof -
  let ?n = "len (entries object)"
  let ?keys = "\<lparr>array = length sm, len = ?n, cap = ?n\<rparr>"
  let ?sm1 = "sm @ [replicate ?n []]"
  have v1: "valid_slice ?sm1 ?keys" by (simp add: valid_slice_def)
  have l: "length (elems m (entries object)) = ?n" using v by (rule valid_slice_length_elems)
  then have "0 + length (elems m (entries object)) \<le> len ?keys" by simp
  from Keys_range_result[OF v1 this] obtain sm' where
    r: "Keys_range ?sm1 ?keys (elems m (entries object)) 0 = Inr sm'" "length sm' = length ?sm1"
      "\<forall>a. a \<noteq> array ?keys \<longrightarrow> sm' ! a = ?sm1 ! a"
      "sm' ! array ?keys = map Key (elems m (entries object))"
    using l by auto
  have "sm' = sm @ [map Key (elems m (entries object))]"
  proof (rule nth_equalityI)
    show "length sm' = length (sm @ [map Key (elems m (entries object))])" using r(2) by simp
  next
    fix i assume "i < length sm'"
    then have "i < length sm \<or> i = length sm" using r(2) by auto
    then show "sm' ! i = (sm @ [map Key (elems m (entries object))]) ! i"
      using r(3) r(4) by (auto simp: nth_append)
  qed
  then show ?thesis using r(1) by (simp add: Keys_def makeslice_def)
qed

lemma Values_result:
  assumes v: "valid_slice m (entries object)"
  shows "Values rt m vm object =
     Inr (\<lparr>array = length vm, len = len (entries object), cap = len (entries object)\<rparr>,
          vm @ [map Value (elems m (entries object))])"
proof -
  let ?n = "len (entries object)"
  let ?vals = "\<lparr>array = length vm, len = ?n, cap = ?n\<rparr>"
  let ?vm1 = "vm @ [replicate ?n (zeroV rt)]"
  have v1: "valid_slice ?vm1 ?vals" by (simp add: valid_slice_def)
  have l: "length (elems m (entries object)) = ?n" using v by (rule valid_slice_length_elems)
  then have "0 + length (elems m (entries object)) \<le> len ?vals" by simp
  from Values_range_result[OF v1 this] obtain vm' where
    r: "Values_range ?vm1 ?vals (elems m (entries object)) 0 = Inr vm'" "length vm' = length ?vm1"
      "\<forall>a. a \<noteq> array ?vals \<longrightarrow> vm' ! a = ?vm1 ! a"
      "vm' ! array ?vals = map Value (elems m (entries object))"
    using l by auto
  have "vm' = vm @ [map Value (elems m (entries object))]"
  proof (rule nth_equalityI)
    show "length vm' = length (vm @ [map Value (elems m (entries object))])" using r(2) by simp
  next
    fix i assume "i < length vm'"
    then have "i < length vm \<or> i = length vm" using r(2) by auto
    then show "vm' ! i = (vm @ [map Value (elems m (entries object))]) ! i"
      using r(3) r(4) by (auto simp: nth_append)
  qed
  then show ?thesis using r(1) by (simp add: Values_def makeslice_def)
qed

lemma fresh_slice_facts:
  "valid_slice (m @ [xs]) \<lparr>array = length m, len = length xs, cap = length xs\<rparr>"
  "elems (m @ [xs]) \<lparr>array = length m, len = length xs, cap = length xs\<rparr> = xs"
  "\<forall>a<length m. (m @ [xs]) ! a = m ! a"
  by (simp_all add: valid_slice_def elems_def backing_def nth_append)

lemma fresh_index_set_frame:
  assumes "index_set (m @ [xs]) s i x = Inr m'" "array s = length m"
  shows "\<forall>a<length m. m' ! a = m ! a"
  using assms by (auto simp: index_set_def nth_append split: if_splits)

lemma fresh_append_slice_frame:
  assumes "append_slice g z (m @ [xs]) s ys = (s', m')" "array s = length m"
  shows "\<forall>a<length m. m' ! a = m ! a"
  using assms by (auto simp: append_slice_def Let_def nth_append split: if_splits)

lemma Keys_fresh:
  assumes v: "valid_slice m (entries object)"
  shows "\<exists>keys sm'. Keys m sm object = Inr (keys, sm') \<and>
       array keys = length sm \<and> len keys = Length object \<and> valid_slice sm' keys \<and>
       elems sm' keys = map Key (elems m (entries object)) \<and>
       (\<forall>a<length sm. sm' ! a = sm ! a) \<and>
       (\<forall>i x sm''. index_set sm' keys i x = Inr sm'' \<longrightarrow> (\<forall>a<length sm. sm'' ! a = sm ! a))"
proof -
  let ?n = "len (entries object)"
  let ?ks = "map Key (elems m (entries object))"
  let ?keys = "\<lparr>array = length sm, len = ?n, cap = ?n\<rparr>"
  let ?sm' = "sm @ [?ks]"
  have l: "length ?ks = ?n" using valid_slice_length_elems[OF v] by simp
  have 1: "Keys m sm object = Inr (?keys, ?sm')" using Keys_result[OF v] .
  have 2: "array ?keys = length sm" by simp
  have 3: "len ?keys = Length object" by (simp add: Length_def)
  have 4: "valid_slice ?sm' ?keys" using fresh_slice_facts(1)[of sm ?ks] unfolding l .
  have 5: "elems ?sm' ?keys = ?ks" using fresh_slice_facts(2)[of sm ?ks] unfolding l .
  have 6: "\<forall>a<length sm. ?sm' ! a = sm ! a" by (rule fresh_slice_facts(3))
  have 7: "\<forall>i x sm''. index_set ?sm' ?keys i x = Inr sm'' \<longrightarrow> (\<forall>a<length sm. sm'' ! a = sm ! a)"
  proof (intro allI impI)
    fix i x sm'' a
    assume "index_set ?sm' ?keys i x = Inr sm''" "a < length sm"
    then show "sm'' ! a = sm ! a" using fresh_index_set_frame[of sm ?ks ?keys i x sm''] 2 by blast
  qed
  from 1 2 3 4 5 6 7 show ?thesis by blast
qed

lemma Values_fresh:
  assumes v: "valid_slice m (entries object)"
  shows "\<exists>vals vm'. Values rt m vm object = Inr (vals, vm') \<and>
       array vals = length vm \<and> len vals = Length object \<and> valid_slice vm' vals \<and>
       elems vm' vals = map Value (elems m (entries object)) \<and>
       (\<forall>a<length vm. vm' ! a = vm ! a) \<and>
       (\<forall>i x vm''. index_set vm' vals i x = Inr vm'' \<longrightarrow> (\<forall>a<length vm. vm'' ! a = vm ! a))"
proof -
  let ?n = "len (entries object)"
  let ?vs = "map Value (elems m (entries object))"
  let ?vals = "\<lparr>array = length vm, len = ?n, cap = ?n\<rparr>"
  let ?vm' = "vm @ [?vs]"
  have l: "length ?vs = ?n" using valid_slice_length_elems[OF v] by simp
  have 1: "Values rt m vm object = Inr (?vals, ?vm')" using Values_result[OF v] .
  have 2: "array ?vals = length vm" by simp
  have 3: "len ?vals = Length object" by (simp add: Length_def)
  have 4: "valid_slice ?vm' ?vals" using fresh_slice_facts(1)[of vm ?vs] unfolding l .
  have 5: "elems ?vm' ?vals = ?vs" using fresh_slice_facts(2)[of vm ?vs] unfolding l .
  have 6: "\<forall>a<length vm. ?vm' ! a = vm ! a" by (rule fresh_slice_facts(3))
  have 7: "\<forall>i x vm''. index_set ?vm' ?vals i x = Inr vm'' \<longrightarrow> (\<forall>a<length vm. vm'' ! a = vm ! a)"
  proof (intro allI impI)
    fix i x vm'' a
    assume "index_set ?vm' ?vals i x = Inr vm''" "a < length vm"
    then show "vm'' ! a = vm ! a" using fresh_index_set_frame[of vm ?vs ?vals i x vm''] 2 by blast
  qed
  from 1 2 3 4 5 6 7 show ?thesis by blast
qed

lemma Entries_fresh:
  assumes v: "valid_slice m (entries object)"
  shows "\<exists>es m'. Entries rt m object = Inr (es, m') \<and>
       array es = length m \<and> array es \<noteq> array (entries object) \<and>
       len es = Length object \<and> valid_slice m' es \<and>
       elems m' es = elems m (entries object) \<and>
       elems m' (entries object) = elems m (entries object) \<and>
       (\<forall>i x m''. index_set m' es i x = Inr m'' \<longrightarrow>
          m'' ! array (entries object) = m ! array (entries object) \<and>
          elems m'' (entries object) = elems m (entries object)) \<and>
       (\<forall>g z xs s m''. append_slice g z m' es xs = (s, m'') \<longrightarrow>
          m'' ! array (entries object) = m ! array (entries object) \<and>
          elems m'' (entries object) = elems m (entries object))"
proof -
  let ?n = "len (entries object)"
  let ?xs = "elems m (entries object)"
  let ?es = "\<lparr>array = length m, len = ?n, cap = ?n\<rparr>"
  let ?m' = "m @ [?xs]"
  have l: "length ?xs = ?n" using v by (rule valid_slice_length_elems)
  have a: "array (entries object) < length m" using v by (simp add: valid_slice_def)
  have 1: "Entries rt m object = Inr (?es, ?m')" using Entries_result[OF v] .
  have 2: "array ?es = length m" by simp
  have 9: "array ?es \<noteq> array (entries object)" using a by simp
  have 3: "len ?es = Length object" by (simp add: Length_def)
  have 4: "valid_slice ?m' ?es" using fresh_slice_facts(1)[of m ?xs] unfolding l .
  have 5: "elems ?m' ?es = ?xs" using fresh_slice_facts(2)[of m ?xs] unfolding l .
  have 6: "elems ?m' (entries object) = ?xs"
    using a by (simp add: elems_def backing_def nth_append)
  have 7: "\<forall>i x m''. index_set ?m' ?es i x = Inr m'' \<longrightarrow>
          m'' ! array (entries object) = m ! array (entries object) \<and>
          elems m'' (entries object) = elems m (entries object)"
  proof (intro allI impI)
    fix i x m''
    assume h: "index_set ?m' ?es i x = Inr m''"
    have b: "m'' ! array (entries object) = m ! array (entries object)"
      using fresh_index_set_frame[OF h] a by simp
    have "length m \<le> length m''" using h by (auto simp: index_set_def split: if_splits)
    then have "elems m'' (entries object) = elems m (entries object)"
      by (rule elems_frame[OF a b])
    with b show "m'' ! array (entries object) = m ! array (entries object) \<and>
          elems m'' (entries object) = elems m (entries object)" by simp
  qed
  have 8: "\<forall>g z ys s m''. append_slice g z ?m' ?es ys = (s, m'') \<longrightarrow>
          m'' ! array (entries object) = m ! array (entries object) \<and>
          elems m'' (entries object) = elems m (entries object)"
  proof (intro allI impI)
    fix g z ys s m''
    assume h: "append_slice g z ?m' ?es ys = (s, m'')"
    have b: "m'' ! array (entries object) = m ! array (entries object)"
      using fresh_append_slice_frame[OF h] a by simp
    have "length m \<le> length m''" using append_slice_grows(1)[OF h] by simp
    then have "elems m'' (entries object) = elems m (entries object)"
      by (rule elems_frame[OF a b])
    with b show "m'' ! array (entries object) = m ! array (entries object) \<and>
          elems m'' (entries object) = elems m (entries object)" by simp
  qed
  from 1 2 9 3 4 5 6 7 8 show ?thesis by blast
qed

section \<open>Key uniqueness under the operations\<close>

text \<open>
  \<^verbatim>\<open>Set\<close> and \<^verbatim>\<open>Delete\<close> keep a valid header valid and unique keys unique; decoding keeps
  the header valid, whatever the input.
\<close>

lemma loop_valid:
  "valid_slice m (entries object) \<Longrightarrow>
   UnmarshalJSONFrom_loop rt UD m object dec = (m', object', dec', err) \<Longrightarrow>
   valid_slice m' (entries object')"
proof (induction rt UD m object dec rule: UnmarshalJSONFrom_loop.induct)
  case (1 rt UD m object dec)
  show ?case
  proof (cases "PeekKind dec \<noteq> CHR ''}''")
    case False
    then show ?thesis using "1.prems" by (simp add: loop_stop)
  next
    case True
    obtain r dec1 where rd: "ReadToken dec = (r, dec1)" by (cases "ReadToken dec")
    show ?thesis
    proof (cases r)
      case (Inl e)
      then show ?thesis using "1.prems" True rd by (simp add: loop_read_error)
    next
      case (Inr tok)
      show ?thesis
      proof (cases "Kind tok \<noteq> CHR 0x22")
        case k: True
        then show ?thesis using "1.prems" True rd Inr by (simp add: loop_not_string)
      next
        case k: False
        show ?thesis
        proof (cases "UD dec1")
          case (Inl e)
          then show ?thesis using "1.prems" True rd Inr k by (simp add: loop_value_error)
        next
          case u: (Inr vn)
          obtain v n where vn: "vn = (v, n)" by (cases vn)
          obtain s m1 where a: "append_slice (growslice rt) (zero_entry rt) m (entries object)
              [\<lparr>Key = token_String tok, Value = v\<rparr>] = (s, m1)"
            by (cases "append_slice (growslice rt) (zero_entry rt) m (entries object)
              [\<lparr>Key = token_String tok, Value = v\<rparr>]")
          have v1: "valid_slice m1 (entries (object\<lparr>entries := s\<rparr>))"
            using append_slice_valid[OF "1.prems"(1) a] by simp
          have e: "UnmarshalJSONFrom_loop rt UD m object dec =
              UnmarshalJSONFrom_loop rt UD m1 (object\<lparr>entries := s\<rparr>) (drop n dec1)"
            using loop_pair[of dec tok dec1 UD v n rt m object s m1] True rd Inr k u vn a by simp
          show ?thesis
            using "1.IH"[OF True rd[symmetric] Inr _ u[unfolded vn] refl a[symmetric] v1]
              "1.prems"(2) e k by simp
        qed
      qed
    qed
  qed
qed

lemma UnmarshalJSONFrom_valid:
  assumes "valid_slice m (entries object)"
    and "UnmarshalJSONFrom rt UD m object dec = (m', object', dec', err)"
  shows "valid_slice m' (entries object')"
proof -
  let ?o0 = "object\<lparr>entries := (entries object)\<lparr>len := 0\<rparr>\<rparr>"
  have v0: "valid_slice m (entries ?o0)" using assms(1) by (simp add: valid_slice_def)
  obtain r dec1 where rd: "ReadToken dec = (r, dec1)" by (cases "ReadToken dec")
  show ?thesis
  proof (cases r)
    case (Inl e)
    then show ?thesis using assms(2) rd v0 by (auto simp: UnmarshalJSONFrom_def)
  next
    case (Inr tok)
    show ?thesis
    proof (cases "Kind tok \<noteq> CHR ''{''")
      case True
      then show ?thesis using assms(2) rd Inr v0 by (auto simp: UnmarshalJSONFrom_def)
    next
      case False
      obtain m1 o1 d2 e1 where l: "UnmarshalJSONFrom_loop rt UD m ?o0 dec1 = (m1, o1, d2, e1)"
        by (cases "UnmarshalJSONFrom_loop rt UD m ?o0 dec1") auto
      have "m' = m1 \<and> object' = o1"
        using assms(2) rd Inr False l
        by (auto simp: UnmarshalJSONFrom_def split: option.splits prod.splits sum.splits)
      then show ?thesis using loop_valid[OF v0 l] by simp
    qed
  qed
qed

lemma Set_keeps_unique:
  assumes v: "valid_slice m (entries object)" and u: "unique_keys m object"
  shows "\<exists>m' object'. Set rt m object k x = Inr (m', object') \<and>
     valid_slice m' (entries object') \<and> unique_keys m' object'"
proof (cases "k \<in> Key ` set (elems m (entries object))")
  case True
  from first_occurrence_exists[OF True] obtain p where
    p: "p < length (elems m (entries object))" "Key (elems m (entries object) ! p) = k"
      "\<forall>q<p. Key (elems m (entries object) ! q) \<noteq> k"
    by blast
  have pl: "p < len (entries object)"
    using p(1) v by (simp add: valid_slice_length_elems)
  let ?m' = "m[array (entries object) := (m ! array (entries object))
              [p := (elems m (entries object) ! p)\<lparr>Value := x\<rparr>]]"
  have s: "Set rt m object k x = Inr (?m', object)"
    using Set_present[OF v pl p(2) p(3)] .
  have e: "elems ?m' (entries object) =
      (elems m (entries object))[p := (elems m (entries object) ! p)\<lparr>Value := x\<rparr>]"
    using v by (simp add: elems_def backing_def valid_slice_def take_update_swap)
  have v': "valid_slice ?m' (entries object)"
    using v by (simp add: valid_slice_def)
  have "map Key ((elems m (entries object))[p := (elems m (entries object) ! p)\<lparr>Value := x\<rparr>]) =
      map Key (elems m (entries object))"
    using p(1) by (simp add: map_update list_update_same_conv)
  then have "unique_keys ?m' object" using u e by (simp add: unique_keys_def)
  then show ?thesis using s v' by blast
next
  case False
  obtain s m' where a: "append_slice (growslice rt) (zero_entry rt) m (entries object)
      [\<lparr>Key = k, Value = x\<rparr>] = (s, m')"
    by (cases "append_slice (growslice rt) (zero_entry rt) m (entries object) [\<lparr>Key = k, Value = x\<rparr>]")
  have s: "Set rt m object k x = Inr (m', object\<lparr>entries := s\<rparr>)"
    using Set_absent[OF False, of rt x] a by simp
  have "unique_keys m' (object\<lparr>entries := s\<rparr>)"
    using append_slice_elems[OF v a] u False by (auto simp: unique_keys_def)
  then show ?thesis using s append_slice_valid[OF v a] by simp
qed

lemma Delete_keeps_unique:
  assumes v: "valid_slice m (entries object)" and u: "unique_keys m object"
  shows "\<exists>m' object'. Delete rt m object k = Inr (m', object') \<and>
     valid_slice m' (entries object') \<and> unique_keys m' object'"
proof (cases "k \<in> Key ` set (elems m (entries object))")
  case True
  from first_occurrence_exists[OF True] obtain p where
    p: "p < length (elems m (entries object))" "Key (elems m (entries object) ! p) = k"
      "\<forall>q<p. Key (elems m (entries object) ! q) \<noteq> k"
    by blast
  have pl: "p < len (entries object)"
    using p(1) v by (simp add: valid_slice_length_elems)
  let ?s = "entries object"
  let ?m' = "m[array ?s := take p (m ! array ?s) @ drop (Suc p) (elems m ?s)
                @ drop (len ?s - 1) (m ! array ?s)]"
  let ?o' = "object\<lparr>entries := ?s\<lparr>len := len ?s - 1\<rparr>\<rparr>"
  have s: "Delete rt m object k = Inr (?m', ?o')"
    using Delete_present[OF v pl p(2) p(3)] .
  have lc: "len ?s \<le> length (m ! array ?s)" "array ?s < length m"
    using v by (simp_all add: valid_slice_def)
  have tp: "take p (m ! array ?s) = take p (elems m ?s)"
    using lc pl by (simp add: elems_def backing_def min_def)
  have ln: "length (take p (elems m ?s) @ drop (Suc p) (elems m ?s)) = len ?s - 1"
    using lc pl by (simp add: elems_def backing_def min_def)
  have "elems ?m' (entries ?o') = take (len ?s - 1)
      ((take p (elems m ?s) @ drop (Suc p) (elems m ?s)) @ drop (len ?s - 1) (m ! array ?s))"
    using lc tp by (simp add: elems_list_update)
  also have "\<dots> = take p (elems m ?s) @ drop (Suc p) (elems m ?s)"
    using ln by (metis append_eq_conv_conj)
  finally have e: "elems ?m' (entries ?o') = take p (elems m ?s) @ drop (Suc p) (elems m ?s)" .
  have v': "valid_slice ?m' (entries ?o')"
    using v pl by (auto simp: valid_slice_def elems_def backing_def min_def)
  have "distinct (map Key (take p (elems m ?s) @ (elems m ?s ! p) # drop (Suc p) (elems m ?s)))"
    using u id_take_nth_drop[OF p(1)] by (simp add: unique_keys_def)
  then have "distinct (map Key (take p (elems m ?s) @ drop (Suc p) (elems m ?s)))"
    by auto
  then have "unique_keys ?m' ?o'" using e by (simp add: unique_keys_def)
  then show ?thesis using s v' by blast
next
  case False
  show ?thesis
    using Delete_absent[OF False, of rt] v u by simp
qed

lemma apply_operations_unique:
  assumes "valid_slice m (entries object)" "unique_keys m object"
    "decodes_unique rt UD m object ops"
  shows "\<exists>m' object'. apply_operations rt UD m object ops = Inr (m', object') \<and>
     valid_slice m' (entries object') \<and> unique_keys m' object'"
  using assms
proof (induction ops arbitrary: m object)
  case Nil
  then show ?case by simp
next
  case (Cons x ops)
  have "\<exists>m1 o1. apply_operation rt UD m object x = Inr (m1, o1) \<and>
      valid_slice m1 (entries o1) \<and> unique_keys m1 o1"
  proof (cases x)
    case (OpSet k v)
    then show ?thesis using Set_keeps_unique[OF Cons.prems(1,2), of rt k v] by simp
  next
    case (OpDelete k)
    then show ?thesis using Delete_keeps_unique[OF Cons.prems(1,2), of rt k] by simp
  next
    case (OpUnmarshalJSONFrom dec)
    obtain m1 o1 d1 e1 where r: "UnmarshalJSONFrom rt UD m object dec = (m1, o1, d1, e1)"
      by (cases "UnmarshalJSONFrom rt UD m object dec") auto
    have "unique_keys m1 o1" using Cons.prems(3) OpUnmarshalJSONFrom r by simp
    then show ?thesis
      using OpUnmarshalJSONFrom r UnmarshalJSONFrom_valid[OF Cons.prems(1) r] by simp
  qed
  then obtain m1 o1 where s: "apply_operation rt UD m object x = Inr (m1, o1)"
      "valid_slice m1 (entries o1)" "unique_keys m1 o1"
    by blast
  have "decodes_unique rt UD m1 o1 ops" using Cons.prems(3) s(1) by simp
  from Cons.IH[OF s(2) s(3) this] show ?case using s(1) by simp
qed

lemma unique_keys_card:
  "unique_keys m object \<Longrightarrow>
   card (Key ` set (elems m (entries object))) = length (elems m (entries object))"
  using distinct_card[of "map Key (elems m (entries object))"] by (simp add: unique_keys_def)

lemma NewObject_valid:
  "NewObject rt m0 capacity = Inr (m, object) \<Longrightarrow>
   valid_slice m (entries object) \<and> elems m (entries object) = []"
  by (auto simp: NewObject_def makeslice_limit_def valid_slice_def elems_def Let_def split: if_splits)



section \<open>Set, Delete and NewObject\<close>

text \<open>
  Claim C3, corrected. \<^verbatim>\<open>Set(k, v)\<close> on a container whose slice header is valid never
  panics. If \<open>k\<close> is present and \<open>p\<close> is the first position holding \<open>k\<close> (where the linear
  scan of \<^verbatim>\<open>findKeyIndex\<close> stops; the only position holding \<open>k\<close> when keys are unique), the
  entry at \<open>p\<close> keeps its key and gets the value \<open>v\<close>, every other entry and the length are
  unchanged. If \<open>k\<close> is absent, the entry \<open>(k, v)\<close> is appended at the end and the existing
  entries stay in place. For a later position holding \<open>k\<close> the claim does not hold.
\<close>

theorem Set_positional:
  assumes v: "valid_slice m (entries object)"
  shows "\<exists>m' object'. Set rt m object k v = Inr (m', object') \<and>
     valid_slice m' (entries object') \<and>
     (\<forall>p. p < Length object \<and> Key (elems m (entries object) ! p) = k \<and>
           (\<forall>q<p. Key (elems m (entries object) ! q) \<noteq> k) \<longrightarrow>
          elems m' (entries object') =
            (elems m (entries object))[p := (elems m (entries object) ! p)\<lparr>Value := v\<rparr>] \<and>
          Length object' = Length object) \<and>
     (k \<notin> Key ` set (elems m (entries object)) \<longrightarrow>
          elems m' (entries object') = elems m (entries object) @ [\<lparr>Key = k, Value = v\<rparr>] \<and>
          Length object' = Length object + 1)"
proof (cases "k \<in> Key ` set (elems m (entries object))")
  case True
  then obtain p where p: "p < length (elems m (entries object))"
      "Key (elems m (entries object) ! p) = k" "\<forall>q<p. Key (elems m (entries object) ! q) \<noteq> k"
    using first_occurrence_exists by blast
  have pl: "p < len (entries object)"
    using p(1) v by (simp add: valid_slice_length_elems)
  let ?m' = "m[array (entries object) := (m ! array (entries object))
              [p := (elems m (entries object) ! p)\<lparr>Value := v\<rparr>]]"
  have s: "Set rt m object k v = Inr (?m', object)"
    using Set_present[OF v pl p(2) p(3)] .
  have e: "elems ?m' (entries object) =
      (elems m (entries object))[p := (elems m (entries object) ! p)\<lparr>Value := v\<rparr>]"
    using v by (simp add: elems_def backing_def valid_slice_def take_update_swap)
  have v': "valid_slice ?m' (entries object)"
    using v by (simp add: valid_slice_def)
  have u: "p' = p" if "p' < Length object" "Key (elems m (entries object) ! p') = k"
      "\<forall>q<p'. Key (elems m (entries object) ! q) \<noteq> k" for p'
    using that p pl by (metis linorder_neqE_nat)
  show ?thesis
    using s e v' u True by auto
next
  case False
  obtain s m' where a: "append_slice (growslice rt) (zero_entry rt) m (entries object)
      [\<lparr>Key = k, Value = v\<rparr>] = (s, m')"
    by (cases "append_slice (growslice rt) (zero_entry rt) m (entries object) [\<lparr>Key = k, Value = v\<rparr>]")
  have s: "Set rt m object k v = Inr (m', object\<lparr>entries := s\<rparr>)"
    using Set_absent[OF False, of rt v] a by simp
  have l: "len s = len (entries object) + 1"
    using a by (auto simp: append_slice_def Let_def split: if_splits)
  have n: "\<not> (p < Length object \<and> Key (elems m (entries object) ! p) = k)" for p
    using False v by (auto simp: Length_def valid_slice_length_elems dest!: nth_mem[of p "elems m (entries object)"])
  show ?thesis
    using s append_slice_elems[OF v a] append_slice_valid[OF v a] l n False
    by (auto simp: Length_def)
qed

text \<open>The theorem at a two-entry container: setting the second key rewrites its value only.\<close>

theorem Set_positional_witness:
  "\<exists>m' object'.
     Set \<lparr>growslice = (\<lambda>c n. 2 * n), zeroV = 0::int, maxElems = 2 ^ 48 div 24\<rparr>
       [[\<lparr>Key = ''a'', Value = 1\<rparr>, \<lparr>Key = ''b'', Value = 2\<rparr>]]
       \<lparr>entries = \<lparr>array = 0, len = 2, cap = 2\<rparr>\<rparr> ''b'' 9 = Inr (m', object') \<and>
     elems m' (entries object') = [\<lparr>Key = ''a'', Value = 1\<rparr>, \<lparr>Key = ''b'', Value = 9\<rparr>]"
proof -
  let ?rt = "\<lparr>growslice = (\<lambda>c n. 2 * n), zeroV = 0::int, maxElems = 2 ^ 48 div 24\<rparr>"
  let ?m = "[[\<lparr>Key = ''a'', Value = 1::int\<rparr>, \<lparr>Key = ''b'', Value = 2\<rparr>]]"
  let ?o = "\<lparr>entries = \<lparr>array = 0, len = 2, cap = 2\<rparr>\<rparr>"
  have v: "valid_slice ?m (entries ?o)"
    by (simp add: valid_slice_def)
  from Set_positional[OF v, of ?rt "''b''" 9] obtain m' object' where
    s: "Set ?rt ?m ?o ''b'' 9 = Inr (m', object')" and
    h: "\<forall>p. p < Length ?o \<and> Key (elems ?m (entries ?o) ! p) = ''b'' \<and>
           (\<forall>q<p. Key (elems ?m (entries ?o) ! q) \<noteq> ''b'') \<longrightarrow>
          elems m' (entries object') =
            (elems ?m (entries ?o))[p := (elems ?m (entries ?o) ! p)\<lparr>Value := 9\<rparr>] \<and>
          Length object' = Length ?o"
    by blast
  have e0: "elems ?m (entries ?o) = [\<lparr>Key = ''a'', Value = 1\<rparr>, \<lparr>Key = ''b'', Value = 2\<rparr>]"
    by (simp add: elems_def backing_def)
  from h[rule_format, of 1] have "elems m' (entries object') =
      [\<lparr>Key = ''a'', Value = 1\<rparr>, \<lparr>Key = ''b'', Value = 9\<rparr>]"
    unfolding e0 by (simp add: Length_def)
  with s show ?thesis by blast
qed

text \<open>
  A container that decoding leaves with the key \<open>a\<close> at the positions 0 and 1: \<open>a\<close> is
  present at position 1, and \<^verbatim>\<open>Set\<close> of \<open>a\<close> leaves the value at position 1 and rewrites the
  entry at position 0.
\<close>

theorem Set_duplicate_key:
  "apply_operations scalar_runtime scalar_UnmarshalDecode [[]]
     \<lparr>entries = \<lparr>array = 0, len = 0, cap = 0\<rparr>\<rparr>
     [OpUnmarshalJSONFrom [Lex BeginObject, Lex (String ''a''), Lex (Number ''1''),
        Lex (String ''a''), Lex (Number ''2''), Lex EndObject]] =
     Inr ([[], [\<lparr>Key = ''a'', Value = Number ''1''\<rparr>, \<lparr>Key = ''a'', Value = Number ''2''\<rparr>]],
          \<lparr>entries = \<lparr>array = 1, len = 2, cap = 2\<rparr>\<rparr>) \<and>
   Key (elems [[], [\<lparr>Key = ''a'', Value = Number ''1''\<rparr>, \<lparr>Key = ''a'', Value = Number ''2''\<rparr>]]
          \<lparr>array = 1, len = 2, cap = 2\<rparr> ! 1) = ''a'' \<and>
   Set scalar_runtime
     [[], [\<lparr>Key = ''a'', Value = Number ''1''\<rparr>, \<lparr>Key = ''a'', Value = Number ''2''\<rparr>]]
     \<lparr>entries = \<lparr>array = 1, len = 2, cap = 2\<rparr>\<rparr> ''a'' (Number ''9'') =
     Inr ([[], [\<lparr>Key = ''a'', Value = Number ''9''\<rparr>, \<lparr>Key = ''a'', Value = Number ''2''\<rparr>]],
          \<lparr>entries = \<lparr>array = 1, len = 2, cap = 2\<rparr>\<rparr>) \<and>
   elems [[], [\<lparr>Key = ''a'', Value = Number ''9''\<rparr>, \<lparr>Key = ''a'', Value = Number ''2''\<rparr>]]
     \<lparr>array = 1, len = 2, cap = 2\<rparr> =
     [\<lparr>Key = ''a'', Value = Number ''9''\<rparr>, \<lparr>Key = ''a'', Value = Number ''2''\<rparr>]"
  by (simp add: UnmarshalJSONFrom_def UnmarshalJSONFrom_loop.simps append_slice_def Let_def
      scalar_runtime_def zero_entry_def elems_def backing_def Set_def findKeyIndex_def
      index_get_def index_set_def)

text \<open>
  Claim C4, corrected. \<^verbatim>\<open>Delete(k)\<close> on a container whose slice header is valid never
  panics. If \<open>k\<close> is present and \<open>p\<close> is the first position holding \<open>k\<close> (where the scan
  stops; the only position holding \<open>k\<close> when keys are unique), the entries before \<open>p\<close> stay,
  the entries after \<open>p\<close> move one position toward the front, and the length decreases by
  one. If \<open>k\<close> is absent, store and container are unchanged. For a later position holding
  \<open>k\<close> the claim does not hold.
\<close>

theorem Delete_positional:
  assumes v: "valid_slice m (entries object)"
  shows "\<exists>m' object'. Delete rt m object k = Inr (m', object') \<and>
     valid_slice m' (entries object') \<and>
     (\<forall>p. p < Length object \<and> Key (elems m (entries object) ! p) = k \<and>
           (\<forall>q<p. Key (elems m (entries object) ! q) \<noteq> k) \<longrightarrow>
          elems m' (entries object') =
            take p (elems m (entries object)) @ drop (Suc p) (elems m (entries object)) \<and>
          Length object' = Length object - 1) \<and>
     (k \<notin> Key ` set (elems m (entries object)) \<longrightarrow> m' = m \<and> object' = object)"
proof (cases "k \<in> Key ` set (elems m (entries object))")
  case True
  then obtain p where p: "p < length (elems m (entries object))"
      "Key (elems m (entries object) ! p) = k" "\<forall>q<p. Key (elems m (entries object) ! q) \<noteq> k"
    using first_occurrence_exists by blast
  have pl: "p < len (entries object)"
    using p(1) v by (simp add: valid_slice_length_elems)
  let ?s = "entries object"
  let ?m' = "m[array ?s := take p (m ! array ?s) @ drop (Suc p) (elems m ?s)
                @ drop (len ?s - 1) (m ! array ?s)]"
  let ?o' = "object\<lparr>entries := ?s\<lparr>len := len ?s - 1\<rparr>\<rparr>"
  have s: "Delete rt m object k = Inr (?m', ?o')"
    using Delete_present[OF v pl p(2) p(3)] .
  have lc: "len ?s \<le> length (m ! array ?s)" "array ?s < length m"
    using v by (simp_all add: valid_slice_def)
  have tp: "take p (m ! array ?s) = take p (elems m ?s)"
    using lc pl by (simp add: elems_def backing_def min_def)
  have ln: "length (take p (elems m ?s) @ drop (Suc p) (elems m ?s)) = len ?s - 1"
    using lc pl by (simp add: elems_def backing_def min_def)
  have "elems ?m' (entries ?o') = take (len ?s - 1)
      ((take p (elems m ?s) @ drop (Suc p) (elems m ?s)) @ drop (len ?s - 1) (m ! array ?s))"
    using lc tp by (simp add: elems_list_update)
  also have "\<dots> = take p (elems m ?s) @ drop (Suc p) (elems m ?s)"
    using ln by (metis append_eq_conv_conj)
  finally have e: "elems ?m' (entries ?o') = take p (elems m ?s) @ drop (Suc p) (elems m ?s)" .
  have v': "valid_slice ?m' (entries ?o')"
    using v pl by (auto simp: valid_slice_def elems_def backing_def min_def)
  have u: "p' = p" if "p' < Length object" "Key (elems m (entries object) ! p') = k"
      "\<forall>q<p'. Key (elems m (entries object) ! q) \<noteq> k" for p'
    using that p pl by (metis linorder_neqE_nat)
  show ?thesis
    using s e v' u True by (auto simp: Length_def)
next
  case False
  have n: "\<not> (p < Length object \<and> Key (elems m (entries object) ! p) = k)" for p
    using False v by (auto simp: Length_def valid_slice_length_elems dest!: nth_mem[of p "elems m (entries object)"])
  show ?thesis
    using Delete_absent[OF False, of rt] v n by auto
qed

text \<open>The theorem at a three-entry container: deleting the middle key.\<close>

theorem Delete_positional_witness:
  "\<exists>m' object'.
     Delete \<lparr>growslice = (\<lambda>c n. 2 * n), zeroV = 0::int, maxElems = 2 ^ 48 div 24\<rparr>
       [[\<lparr>Key = ''a'', Value = 1\<rparr>, \<lparr>Key = ''b'', Value = 2\<rparr>, \<lparr>Key = ''c'', Value = 3\<rparr>]]
       \<lparr>entries = \<lparr>array = 0, len = 3, cap = 3\<rparr>\<rparr> ''b'' = Inr (m', object') \<and>
     elems m' (entries object') = [\<lparr>Key = ''a'', Value = 1\<rparr>, \<lparr>Key = ''c'', Value = 3\<rparr>] \<and>
     Length object' = 2"
proof -
  let ?rt = "\<lparr>growslice = (\<lambda>c n. 2 * n), zeroV = 0::int, maxElems = 2 ^ 48 div 24\<rparr>"
  let ?m = "[[\<lparr>Key = ''a'', Value = 1::int\<rparr>, \<lparr>Key = ''b'', Value = 2\<rparr>, \<lparr>Key = ''c'', Value = 3\<rparr>]]"
  let ?o = "\<lparr>entries = \<lparr>array = 0, len = 3, cap = 3\<rparr>\<rparr>"
  have v: "valid_slice ?m (entries ?o)"
    by (simp add: valid_slice_def)
  from Delete_positional[OF v, of ?rt "''b''"] obtain m' object' where
    s: "Delete ?rt ?m ?o ''b'' = Inr (m', object')" and
    h: "\<forall>p. p < Length ?o \<and> Key (elems ?m (entries ?o) ! p) = ''b'' \<and>
           (\<forall>q<p. Key (elems ?m (entries ?o) ! q) \<noteq> ''b'') \<longrightarrow>
          elems m' (entries object') =
            take p (elems ?m (entries ?o)) @ drop (Suc p) (elems ?m (entries ?o)) \<and>
          Length object' = Length ?o - 1"
    by blast
  have e0: "elems ?m (entries ?o) =
      [\<lparr>Key = ''a'', Value = 1\<rparr>, \<lparr>Key = ''b'', Value = 2\<rparr>, \<lparr>Key = ''c'', Value = 3\<rparr>]"
    by (simp add: elems_def backing_def)
  from h[rule_format, of 1] have "elems m' (entries object') =
      [\<lparr>Key = ''a'', Value = 1\<rparr>, \<lparr>Key = ''c'', Value = 3\<rparr>] \<and> Length object' = 2"
    unfolding e0 by (simp add: Length_def)
  with s show ?thesis by blast
qed

text \<open>
  A container that decoding leaves with the key \<open>a\<close> at the positions 0 and 2: \<open>a\<close> is
  present at position 2, and \<^verbatim>\<open>Delete\<close> of \<open>a\<close> removes the entry at position 0, so the
  entries before position 2 change and the entry that was at position 2 stays.
\<close>

theorem Delete_duplicate_key:
  "apply_operations scalar_runtime scalar_UnmarshalDecode [[]]
     \<lparr>entries = \<lparr>array = 0, len = 0, cap = 0\<rparr>\<rparr>
     [OpUnmarshalJSONFrom [Lex BeginObject, Lex (String ''a''), Lex (Number ''1''),
        Lex (String ''b''), Lex (Number ''2''), Lex (String ''a''), Lex (Number ''3''),
        Lex EndObject]] =
     Inr ([[], [\<lparr>Key = ''a'', Value = Number ''1''\<rparr>, \<lparr>Key = ''b'', Value = Number ''2''\<rparr>],
           [\<lparr>Key = ''a'', Value = Number ''1''\<rparr>, \<lparr>Key = ''b'', Value = Number ''2''\<rparr>,
            \<lparr>Key = ''a'', Value = Number ''3''\<rparr>, \<lparr>Key = [], Value = Null\<rparr>,
            \<lparr>Key = [], Value = Null\<rparr>, \<lparr>Key = [], Value = Null\<rparr>]],
          \<lparr>entries = \<lparr>array = 2, len = 3, cap = 6\<rparr>\<rparr>) \<and>
   elems [[], [\<lparr>Key = ''a'', Value = Number ''1''\<rparr>, \<lparr>Key = ''b'', Value = Number ''2''\<rparr>],
           [\<lparr>Key = ''a'', Value = Number ''1''\<rparr>, \<lparr>Key = ''b'', Value = Number ''2''\<rparr>,
            \<lparr>Key = ''a'', Value = Number ''3''\<rparr>, \<lparr>Key = [], Value = Null\<rparr>,
            \<lparr>Key = [], Value = Null\<rparr>, \<lparr>Key = [], Value = Null\<rparr>]]
     \<lparr>array = 2, len = 3, cap = 6\<rparr> =
     [\<lparr>Key = ''a'', Value = Number ''1''\<rparr>, \<lparr>Key = ''b'', Value = Number ''2''\<rparr>,
      \<lparr>Key = ''a'', Value = Number ''3''\<rparr>] \<and>
   Delete scalar_runtime
     [[], [\<lparr>Key = ''a'', Value = Number ''1''\<rparr>, \<lparr>Key = ''b'', Value = Number ''2''\<rparr>],
           [\<lparr>Key = ''a'', Value = Number ''1''\<rparr>, \<lparr>Key = ''b'', Value = Number ''2''\<rparr>,
            \<lparr>Key = ''a'', Value = Number ''3''\<rparr>, \<lparr>Key = [], Value = Null\<rparr>,
            \<lparr>Key = [], Value = Null\<rparr>, \<lparr>Key = [], Value = Null\<rparr>]]
     \<lparr>entries = \<lparr>array = 2, len = 3, cap = 6\<rparr>\<rparr> ''a'' =
     Inr ([[], [\<lparr>Key = ''a'', Value = Number ''1''\<rparr>, \<lparr>Key = ''b'', Value = Number ''2''\<rparr>],
           [\<lparr>Key = ''b'', Value = Number ''2''\<rparr>, \<lparr>Key = ''a'', Value = Number ''3''\<rparr>,
            \<lparr>Key = ''a'', Value = Number ''3''\<rparr>, \<lparr>Key = [], Value = Null\<rparr>,
            \<lparr>Key = [], Value = Null\<rparr>, \<lparr>Key = [], Value = Null\<rparr>]],
          \<lparr>entries = \<lparr>array = 2, len = 2, cap = 6\<rparr>\<rparr>) \<and>
   elems [[], [\<lparr>Key = ''a'', Value = Number ''1''\<rparr>, \<lparr>Key = ''b'', Value = Number ''2''\<rparr>],
           [\<lparr>Key = ''b'', Value = Number ''2''\<rparr>, \<lparr>Key = ''a'', Value = Number ''3''\<rparr>,
            \<lparr>Key = ''a'', Value = Number ''3''\<rparr>, \<lparr>Key = [], Value = Null\<rparr>,
            \<lparr>Key = [], Value = Null\<rparr>, \<lparr>Key = [], Value = Null\<rparr>]]
     \<lparr>array = 2, len = 2, cap = 6\<rparr> =
     [\<lparr>Key = ''b'', Value = Number ''2''\<rparr>, \<lparr>Key = ''a'', Value = Number ''3''\<rparr>]"
  by (simp add: UnmarshalJSONFrom_def UnmarshalJSONFrom_loop.simps append_slice_def Let_def
      scalar_runtime_def zero_entry_def elems_def backing_def Delete_def findKeyIndex_def
      slice_to_def slice_from_def numeral_3_eq_3)

text \<open>
  Claim C10, corrected. \<^verbatim>\<open>NewObject\<close> with no capacity argument, or with a first argument
  from 0 up to the largest number of entries the runtime allocates in one array, returns a
  container of length 0 (with no entries, over a valid header). With a negative first
  argument, and also with one above that limit, the call of \<^verbatim>\<open>make\<close> panics and no container
  is returned: the constructor has no guard of its own.
\<close>

theorem NewObject_capacity:
  "(capacity = [] \<or> (0 \<le> capacity ! 0 \<and> capacity ! 0 \<le> int (maxElems rt)) \<longrightarrow>
      (\<exists>m' object. NewObject rt m capacity = Inr (m', object) \<and> Length object = 0 \<and>
         valid_slice m' (entries object) \<and> elems m' (entries object) = [])) \<and>
   (capacity \<noteq> [] \<and> (capacity ! 0 < 0 \<or> int (maxElems rt) < capacity ! 0) \<longrightarrow>
      NewObject rt m capacity = Inl PanicMakesliceCap)"
  by (auto simp: NewObject_def makeslice_limit_def Length_def valid_slice_def elems_def Let_def)

text \<open>
  The claim as stated fails at the largest \<^verbatim>\<open>int\<close> of a 64-bit platform: the capacity is
  not negative and \<^verbatim>\<open>NewObject\<close> panics.
\<close>

theorem NewObject_capacity_too_large:
  "(0::int) \<le> 2 ^ 63 - 1 \<and> NewObject scalar_runtime [] [2 ^ 63 - 1] = Inl PanicMakesliceCap"
  by (simp add: NewObject_def makeslice_limit_def scalar_runtime_def)

text \<open>The theorem at the capacities 3, none, -1 and \<open>2 ^ 62\<close>.\<close>

theorem NewObject_capacity_witness:
  "(\<exists>m' object. NewObject scalar_runtime [] [3] = Inr (m', object) \<and> Length object = 0) \<and>
   (\<exists>m' object. NewObject scalar_runtime [] [] = Inr (m', object) \<and> Length object = 0) \<and>
   NewObject scalar_runtime [] [- 1] = Inl PanicMakesliceCap \<and>
   NewObject scalar_runtime [] [2 ^ 62] = Inl PanicMakesliceCap"
proof -
  have m: "maxElems scalar_runtime = 2 ^ 43" by (simp add: scalar_runtime_def)
  show ?thesis
    using NewObject_capacity[of "[3]" scalar_runtime "[]"]
      NewObject_capacity[of "[]" scalar_runtime "[]"]
      NewObject_capacity[of "[- 1]" scalar_runtime "[]"]
      NewObject_capacity[of "[2 ^ 62]" scalar_runtime "[]"]
    unfolding m by auto
qed



section \<open>Encoding and decoding\<close>

text \<open>
  Claim C1. \<^verbatim>\<open>MarshalJSONTo\<close> does what the emission sequence of the specification says, for
  every container, encoder and host: it writes \<^verbatim>\<open>BeginObject\<close>, then for each entry in
  stored order the key as a string token and the value (through the value's own
  \<^verbatim>\<open>MarshalJSONTo\<close> when it implements \<^verbatim>\<open>OrderedMarshaler\<close>, through the generic marshaller
  in deterministic mode otherwise), then \<^verbatim>\<open>EndObject\<close>, and stops at the first step that
  returns an error. The keys of the sequence are the keys of the entries in stored order.
\<close>

theorem MarshalJSONTo_sequence:
  "MarshalJSONTo J m object enc = emit_all J (MarshalTo_sequence (elems m (entries object))) enc \<and>
   emitted_keys (MarshalTo_sequence (elems m (entries object))) = map Key (elems m (entries object))"
  by (simp add: MarshalJSONTo_emit_all emitted_keys_sequence)

text \<open>
  The sequence at a container of two entries, with the compact encoder: the bytes written are
  the object with its members in stored order, and the newline that ends a top-level value.
\<close>

theorem MarshalJSONTo_sequence_witness:
  \<open>MarshalJSONTo scalar_host
     [[\<lparr>Key = ''name'', Value = String ''John''\<rparr>, \<lparr>Key = ''age'', Value = Number ''30''\<rparr>]]
     \<lparr>entries = \<lparr>array = 0, len = 2, cap = 2\<rparr>\<rparr> (NewEncoder scalar_host) =
   (\<lparr>buf = ''{"name":"John","age":30}'' @ [CHR 0x0A], frames = []\<rparr>, None)\<close>
  using MarshalJSONTo_sequence[of scalar_host
      "[[\<lparr>Key = ''name'', Value = String ''John''\<rparr>, \<lparr>Key = ''age'', Value = Number ''30''\<rparr>]]"
      "\<lparr>entries = \<lparr>array = 0, len = 2, cap = 2\<rparr>\<rparr>" "NewEncoder scalar_host"]
  by (simp add: MarshalTo_sequence_def elems_def backing_def scalar_host_def needs_escape_def
      top_level_newline_def)




text \<open>
  Claim C7. Decoding checks no key for uniqueness. Whatever the keys of the members of the input
  object are, repeated or not, when the host decodes the value of every member,
  \<^verbatim>\<open>UnmarshalJSONFrom\<close> succeeds, consumes exactly the object, and leaves one entry for each
  member of the input, in the order of the input: the keys of the container are the keys of the
  members, with their repetitions, and its length is the number of members.
\<close>

theorem UnmarshalJSONFrom_keeps_duplicates:
  assumes "valid_slice m (entries object)"
    and "\<forall>(k, v, ls) \<in> set ps. \<forall>rest. UD (ls @ rest) = Inr (v, length ls)"
  shows "\<exists>m' object'.
     UnmarshalJSONFrom rt UD m object (object_lexemes ps @ rest) = (m', object', rest, None) \<and>
     valid_slice m' (entries object') \<and>
     elems m' (entries object') = member_entries ps \<and>
     map Key (elems m' (entries object')) = map fst ps \<and>
     Length object' = length ps"
proof -
  from UnmarshalJSONFrom_members[OF assms(2) assms(1), of rt rest] obtain m' object' where
    r: "UnmarshalJSONFrom rt UD m object (object_lexemes ps @ rest) = (m', object', rest, None)"
      "valid_slice m' (entries object')" "elems m' (entries object') = member_entries ps"
    by blast
  have "Length object' = length ps"
    using valid_slice_length_elems[OF r(2)] r(3) by (simp add: Length_def member_entries_def)
  moreover have "map Key (member_entries ps) = map fst ps"
    by (induction ps) (auto simp: member_entries_def)
  ultimately show ?thesis using r by auto
qed

text \<open>
  An object with the key \<open>a\<close> twice gives a container of two entries with the key \<open>a\<close>.
\<close>

theorem UnmarshalJSONFrom_keeps_duplicates_witness:
  "\<exists>m' object'.
     UnmarshalJSONFrom scalar_runtime scalar_UnmarshalDecode [[]]
       \<lparr>entries = \<lparr>array = 0, len = 0, cap = 0\<rparr>\<rparr>
       [Lex BeginObject, Lex (String ''a''), Lex (Number ''1''),
        Lex (String ''a''), Lex (Number ''2''), Lex EndObject] = (m', object', [], None) \<and>
     elems m' (entries object') =
       [\<lparr>Key = ''a'', Value = Number ''1''\<rparr>, \<lparr>Key = ''a'', Value = Number ''2''\<rparr>] \<and>
     Length object' = 2"
proof -
  let ?ps = "[(''a'', Number ''1'', [Lex (Number ''1'')]), (''a'', Number ''2'', [Lex (Number ''2'')])]"
  have v: "valid_slice [[]] (entries \<lparr>entries = \<lparr>array = 0, len = 0, cap = 0\<rparr>\<rparr>)"
    by (simp add: valid_slice_def)
  have h: "\<forall>(k, v, ls) \<in> set ?ps. \<forall>rest. scalar_UnmarshalDecode (ls @ rest) = Inr (v, length ls)"
    by simp
  from UnmarshalJSONFrom_keeps_duplicates[OF v h, of scalar_runtime "[]"]
  show ?thesis
    by (auto simp: object_lexemes_def member_lexemes_def member_entries_def)
qed
section \<open>Clone and the accessors\<close>

text \<open>
  Claim C8. \<^verbatim>\<open>Clone\<close> of a container with a valid header never panics. The clone names an
  array allocated by the call, so not the array of the original; it holds the entries of the
  original, and both encode to the same result. After any sequence of \<^verbatim>\<open>Set\<close> and
  \<^verbatim>\<open>Delete\<close> on the clone (none of which panics), the clone still names another array
  than the original, the backing array of the original is what it was before the clone was
  taken, and so are the entries of the original and its encoding. Values are copied as
  values: \<^verbatim>\<open>Set\<close> and \<^verbatim>\<open>Delete\<close> replace or move entries and write into no value.
\<close>

theorem Clone_independent:
  assumes v: "valid_slice m (entries c)"
  shows "\<exists>m1 c1. Clone rt m c = Inr (m1, c1) \<and>
     array (entries c1) = length m \<and>
     array (entries c1) \<noteq> array (entries c) \<and>
     valid_slice m1 (entries c1) \<and>
     elems m1 (entries c1) = elems m (entries c) \<and>
     elems m1 (entries c) = elems m (entries c) \<and>
     MarshalJSON J m1 c1 = MarshalJSON J m1 c \<and>
     MarshalJSON J m1 c = MarshalJSON J m c \<and>
     (\<forall>ms. \<exists>m2 c2. apply_mutations rt m1 c1 ms = Inr (m2, c2) \<and>
        array (entries c2) \<noteq> array (entries c) \<and>
        m2 ! array (entries c) = m ! array (entries c) \<and>
        elems m2 (entries c) = elems m (entries c) \<and>
        MarshalJSON J m2 c = MarshalJSON J m c)"
proof -
  let ?m1 = "m @ [elems m (entries c)]"
  let ?c1 = "\<lparr>entries = \<lparr>array = length m, len = len (entries c), cap = len (entries c)\<rparr>\<rparr>"
  have a: "array (entries c) < length m" using v by (simp add: valid_slice_def)
  have l: "length (elems m (entries c)) = len (entries c)" using v by (rule valid_slice_length_elems)
  have cl: "Clone rt m c = Inr (?m1, ?c1)" using Clone_result[OF v] .
  have v1: "valid_slice ?m1 (entries ?c1)"
    using fresh_slice_facts(1)[of m "elems m (entries c)"] l by simp
  have e1: "elems ?m1 (entries ?c1) = elems m (entries c)"
    using fresh_slice_facts(2)[of m "elems m (entries c)"] l by simp
  have e0: "elems ?m1 (entries c) = elems m (entries c)"
    using a by (simp add: elems_def backing_def nth_append)
  have mut: "\<exists>m2 c2. apply_mutations rt ?m1 ?c1 ms = Inr (m2, c2) \<and>
        array (entries c2) \<noteq> array (entries c) \<and>
        m2 ! array (entries c) = m ! array (entries c) \<and>
        elems m2 (entries c) = elems m (entries c) \<and>
        MarshalJSON J m2 c = MarshalJSON J m c" for ms
  proof -
    from apply_mutations_frame[OF v1, of rt ms] obtain m2 c2 where
      r: "apply_mutations rt ?m1 ?c1 ms = Inr (m2, c2)" "length ?m1 \<le> length m2"
        "array (entries c2) = array (entries ?c1) \<or> length ?m1 \<le> array (entries c2)"
        "\<forall>a<length ?m1. a \<noteq> array (entries ?c1) \<longrightarrow> m2 ! a = ?m1 ! a"
      by blast
    have n: "array (entries c2) \<noteq> array (entries c)" using r(3) a by auto
    have "m2 ! array (entries c) = ?m1 ! array (entries c)" using r(4) a by simp
    then have b: "m2 ! array (entries c) = m ! array (entries c)" using a by (simp add: nth_append)
    have "length m \<le> length m2" using r(2) by simp
    then have e: "elems m2 (entries c) = elems m (entries c)"
      using elems_frame[OF a b] by simp
    show ?thesis using r(1) n b e MarshalJSON_elems[OF e] by blast
  qed
  show ?thesis
    using cl v1 e1 e0 a mut MarshalJSON_elems[OF e0, of J]
      MarshalJSON_elems[of ?m1 ?c1 ?m1 c J]
    by (intro exI[of _ ?m1] exI[of _ ?c1]) simp
qed

text \<open>
  A clone of a two-entry container, then an update, a deletion and an insertion on the
  clone: the original still holds its two entries and encodes as before.
\<close>

theorem Clone_independent_witness:
  \<open>\<exists>m1 c1 m2 c2.
     Clone scalar_runtime
       [[\<lparr>Key = ''a'', Value = Number ''1''\<rparr>, \<lparr>Key = ''b'', Value = Number ''2''\<rparr>]]
       \<lparr>entries = \<lparr>array = 0, len = 2, cap = 2\<rparr>\<rparr> = Inr (m1, c1) \<and>
     apply_mutations scalar_runtime m1 c1
       [MSet ''a'' (Number ''9''), MDelete ''b'', MSet ''c'' (Bool True)] = Inr (m2, c2) \<and>
     elems m2 \<lparr>array = 0, len = 2, cap = 2\<rparr> =
       [\<lparr>Key = ''a'', Value = Number ''1''\<rparr>, \<lparr>Key = ''b'', Value = Number ''2''\<rparr>] \<and>
     MarshalJSON scalar_host m2 \<lparr>entries = \<lparr>array = 0, len = 2, cap = 2\<rparr>\<rparr> =
       Inr (''{"a":1,"b":2}'' @ [CHR 0x0A])\<close>
proof -
  let ?m = "[[\<lparr>Key = ''a'', Value = Number ''1''\<rparr>, \<lparr>Key = ''b'', Value = Number ''2''\<rparr>]]"
  let ?c = "\<lparr>entries = \<lparr>array = 0, len = 2, cap = 2\<rparr>\<rparr>"
  let ?ms = "[MSet ''a'' (Number ''9''), MDelete ''b'', MSet ''c'' (Bool True)]"
  have v: "valid_slice ?m (entries ?c)" by (simp add: valid_slice_def)
  from Clone_independent[OF v, of scalar_runtime scalar_host] obtain m1 c1 where
    cl: "Clone scalar_runtime ?m ?c = Inr (m1, c1)" and
    h: "\<forall>ms. \<exists>m2 c2. apply_mutations scalar_runtime m1 c1 ms = Inr (m2, c2) \<and>
        array (entries c2) \<noteq> array (entries ?c) \<and>
        m2 ! array (entries ?c) = ?m ! array (entries ?c) \<and>
        elems m2 (entries ?c) = elems ?m (entries ?c) \<and>
        MarshalJSON scalar_host m2 ?c = MarshalJSON scalar_host ?m ?c"
    by blast
  from h[rule_format, of ?ms] obtain m2 c2 where
    r: "apply_mutations scalar_runtime m1 c1 ?ms = Inr (m2, c2)"
      "elems m2 (entries ?c) = elems ?m (entries ?c)"
      "MarshalJSON scalar_host m2 ?c = MarshalJSON scalar_host ?m ?c"
    by blast
  have e0: "elems ?m (entries ?c) =
      [\<lparr>Key = ''a'', Value = Number ''1''\<rparr>, \<lparr>Key = ''b'', Value = Number ''2''\<rparr>]"
    by (simp add: elems_def backing_def)
  have j0: \<open>MarshalJSON scalar_host ?m ?c = Inr (''{"a":1,"b":2}'' @ [CHR 0x0A])\<close>
    unfolding MarshalJSON_def MarshalJSONTo_emit_all e0
    by (simp add: MarshalTo_sequence_def scalar_host_def needs_escape_def top_level_newline_def)
  show ?thesis
    using cl r e0 j0 by auto
qed

text \<open>
  Claim C9. On a container with a valid header, \<^verbatim>\<open>Keys\<close>, \<^verbatim>\<open>Values\<close> and \<^verbatim>\<open>Entries\<close>
  never panic and each returns a slice over an array allocated by the call, of length
  \<^verbatim>\<open>Length()\<close>, holding the keys, the values, the entries in stored order. Keys and values
  live in stores of their own element type, where the call changes no array allocated
  before, and neither does a later assignment through the returned slice. The entries
  returned live in the store of the container: the array of the container is not the
  returned one, and an assignment through the returned slice, or an \<^verbatim>\<open>append\<close> to it,
  leaves the backing array and the entries of the container as they were.
\<close>

theorem accessors_fresh:
  assumes v: "valid_slice m (entries object)"
  shows
   "(\<exists>keys sm'. Keys m sm object = Inr (keys, sm') \<and>
       array keys = length sm \<and> len keys = Length object \<and> valid_slice sm' keys \<and>
       elems sm' keys = map Key (elems m (entries object)) \<and>
       (\<forall>a<length sm. sm' ! a = sm ! a) \<and>
       (\<forall>i x sm''. index_set sm' keys i x = Inr sm'' \<longrightarrow> (\<forall>a<length sm. sm'' ! a = sm ! a))) \<and>
    (\<exists>vals vm'. Values rt m vm object = Inr (vals, vm') \<and>
       array vals = length vm \<and> len vals = Length object \<and> valid_slice vm' vals \<and>
       elems vm' vals = map Value (elems m (entries object)) \<and>
       (\<forall>a<length vm. vm' ! a = vm ! a) \<and>
       (\<forall>i x vm''. index_set vm' vals i x = Inr vm'' \<longrightarrow> (\<forall>a<length vm. vm'' ! a = vm ! a))) \<and>
    (\<exists>es m'. Entries rt m object = Inr (es, m') \<and>
       array es = length m \<and> array es \<noteq> array (entries object) \<and>
       len es = Length object \<and> valid_slice m' es \<and>
       elems m' es = elems m (entries object) \<and>
       elems m' (entries object) = elems m (entries object) \<and>
       (\<forall>i x m''. index_set m' es i x = Inr m'' \<longrightarrow>
          m'' ! array (entries object) = m ! array (entries object) \<and>
          elems m'' (entries object) = elems m (entries object)) \<and>
       (\<forall>g z xs s m''. append_slice g z m' es xs = (s, m'') \<longrightarrow>
          m'' ! array (entries object) = m ! array (entries object) \<and>
          elems m'' (entries object) = elems m (entries object)))"
  using Keys_fresh[OF v, of sm] Values_fresh[OF v, of rt vm] Entries_fresh[OF v, of rt]
  by (intro conjI)

text \<open>
  The three accessors at a two-entry container, and an assignment to the first element of
  the entries returned: the container still holds its two entries.
\<close>

theorem accessors_fresh_witness:
  "(\<exists>keys sm'. Keys [[\<lparr>Key = ''a'', Value = Number ''1''\<rparr>, \<lparr>Key = ''b'', Value = Number ''2''\<rparr>]] []
        \<lparr>entries = \<lparr>array = 0, len = 2, cap = 2\<rparr>\<rparr> = Inr (keys, sm') \<and>
      array keys = 0 \<and> len keys = 2 \<and> elems sm' keys = [''a'', ''b'']) \<and>
   (\<exists>vals vm'. Values scalar_runtime
        [[\<lparr>Key = ''a'', Value = Number ''1''\<rparr>, \<lparr>Key = ''b'', Value = Number ''2''\<rparr>]] []
        \<lparr>entries = \<lparr>array = 0, len = 2, cap = 2\<rparr>\<rparr> = Inr (vals, vm') \<and>
      array vals = 0 \<and> len vals = 2 \<and> elems vm' vals = [Number ''1'', Number ''2'']) \<and>
   (\<exists>es m' m''. Entries scalar_runtime
        [[\<lparr>Key = ''a'', Value = Number ''1''\<rparr>, \<lparr>Key = ''b'', Value = Number ''2''\<rparr>]]
        \<lparr>entries = \<lparr>array = 0, len = 2, cap = 2\<rparr>\<rparr> = Inr (es, m') \<and>
      array es = 1 \<and> len es = 2 \<and>
      elems m' es = [\<lparr>Key = ''a'', Value = Number ''1''\<rparr>, \<lparr>Key = ''b'', Value = Number ''2''\<rparr>] \<and>
      index_set m' es 0 \<lparr>Key = ''z'', Value = Null\<rparr> = Inr m'' \<and>
      elems m'' \<lparr>array = 0, len = 2, cap = 2\<rparr> =
        [\<lparr>Key = ''a'', Value = Number ''1''\<rparr>, \<lparr>Key = ''b'', Value = Number ''2''\<rparr>])"
proof -
  let ?m = "[[\<lparr>Key = ''a'', Value = Number ''1''\<rparr>, \<lparr>Key = ''b'', Value = Number ''2''\<rparr>]]"
  let ?o = "\<lparr>entries = \<lparr>array = 0, len = 2, cap = 2\<rparr>\<rparr>"
  let ?z = "\<lparr>Key = ''z'', Value = Null\<rparr>"
  have v: "valid_slice ?m (entries ?o)" by (simp add: valid_slice_def)
  have e0: "elems ?m (entries ?o) =
      [\<lparr>Key = ''a'', Value = Number ''1''\<rparr>, \<lparr>Key = ''b'', Value = Number ''2''\<rparr>]"
    by (simp add: elems_def backing_def)
  note t = accessors_fresh[OF v, of "[]" scalar_runtime "[]"]
  from t obtain keys sm' where
    k: "Keys ?m [] ?o = Inr (keys, sm')" "array keys = length ([] :: string list list)"
      "len keys = Length ?o" "elems sm' keys = map Key (elems ?m (entries ?o))"
    by blast
  from t obtain vals vm' where
    w: "Values scalar_runtime ?m [] ?o = Inr (vals, vm')" "array vals = length ([] :: token list list)"
      "len vals = Length ?o" "elems vm' vals = map Value (elems ?m (entries ?o))"
    by blast
  from t obtain es m' where
    e: "Entries scalar_runtime ?m ?o = Inr (es, m')" "array es = length ?m"
      "len es = Length ?o" "elems m' es = elems ?m (entries ?o)"
      "\<forall>i x m''. index_set m' es i x = Inr m'' \<longrightarrow>
          m'' ! array (entries ?o) = ?m ! array (entries ?o) \<and>
          elems m'' (entries ?o) = elems ?m (entries ?o)"
    by blast
  let ?m'' = "m'[array es := (backing m' es)[nat 0 := ?z]]"
  have s: "index_set m' es 0 ?z = Inr ?m''"
    using e(3) by (simp add: index_set_def Length_def)
  from e(5)[rule_format, OF s] have f: "elems ?m'' (entries ?o) = elems ?m (entries ?o)"
    by blast
  have K: "\<exists>keys sm'. Keys ?m [] ?o = Inr (keys, sm') \<and>
      array keys = 0 \<and> len keys = 2 \<and> elems sm' keys = [''a'', ''b'']"
    using k unfolding e0 by (auto simp: Length_def)
  have V: "\<exists>vals vm'. Values scalar_runtime ?m [] ?o = Inr (vals, vm') \<and>
      array vals = 0 \<and> len vals = 2 \<and> elems vm' vals = [Number ''1'', Number ''2'']"
    using w unfolding e0 by (auto simp: Length_def)
  have E: "\<exists>es m' m''. Entries scalar_runtime ?m ?o = Inr (es, m') \<and>
      array es = 1 \<and> len es = 2 \<and>
      elems m' es = [\<lparr>Key = ''a'', Value = Number ''1''\<rparr>, \<lparr>Key = ''b'', Value = Number ''2''\<rparr>] \<and>
      index_set m' es 0 ?z = Inr m'' \<and>
      elems m'' \<lparr>array = 0, len = 2, cap = 2\<rparr> =
        [\<lparr>Key = ''a'', Value = Number ''1''\<rparr>, \<lparr>Key = ''b'', Value = Number ''2''\<rparr>]"
    using e(1) e(2) e(3) e(4) s f unfolding e0
    by (intro exI[of _ es] exI[of _ m'] exI[of _ ?m'']) (simp add: Length_def)
  from K V E show ?thesis by (intro conjI)
qed

section \<open>The invariants of the container\<close>

text \<open>
  Claim C5, corrected. Key uniqueness does not hold in every reachable state: decoding
  appends each member of the input without looking for its key, so an input with a repeated
  key leaves a container with that key in two entries. It holds for every sequence of
  \<^verbatim>\<open>Set\<close>, \<^verbatim>\<open>Delete\<close> and decodings, applied to a container that \<^verbatim>\<open>NewObject\<close> returned,
  in which each decoding leaves unique keys (as every input without repeated keys does):
  no operation panics, and in the state reached each key occurs in at most one entry,
  \<^verbatim>\<open>Length()\<close> is the number of entries, and that is the number of distinct keys.
\<close>

theorem operations_keep_unique_keys:
  assumes "NewObject rt m0 capacity = Inr (m, object)"
    and "decodes_unique rt UD m object ops"
  shows "\<exists>m' object'. apply_operations rt UD m object ops = Inr (m', object') \<and>
     unique_keys m' object' \<and>
     Length object' = length (elems m' (entries object')) \<and>
     length (elems m' (entries object')) = card (Key ` set (elems m' (entries object')))"
proof -
  from NewObject_valid[OF assms(1)] have v: "valid_slice m (entries object)"
    and u: "unique_keys m object"
    by (simp_all add: unique_keys_def)
  from apply_operations_unique[OF v u assms(2)] obtain m' object' where
    r: "apply_operations rt UD m object ops = Inr (m', object')"
      "valid_slice m' (entries object')" "unique_keys m' object'"
    by blast
  have "Length object' = length (elems m' (entries object'))"
    using valid_slice_length_elems[OF r(2)] by (simp add: Length_def)
  with r(1) r(3) unique_keys_card[OF r(3)] show ?thesis by simp
qed

text \<open>
  The claim as stated fails after one decoding of \<^verbatim>\<open>{"a":1,"a":2}\<close> into a new container:
  the key \<open>a\<close> is in two entries, the length is 2 and the number of distinct keys is 1.
\<close>

theorem operations_duplicate_keys:
  "NewObject scalar_runtime [] [] = Inr ([[]], \<lparr>entries = \<lparr>array = 0, len = 0, cap = 0\<rparr>\<rparr>) \<and>
   apply_operations scalar_runtime scalar_UnmarshalDecode [[]]
     \<lparr>entries = \<lparr>array = 0, len = 0, cap = 0\<rparr>\<rparr>
     [OpUnmarshalJSONFrom [Lex BeginObject, Lex (String ''a''), Lex (Number ''1''),
        Lex (String ''a''), Lex (Number ''2''), Lex EndObject]] =
     Inr ([[], [\<lparr>Key = ''a'', Value = Number ''1''\<rparr>, \<lparr>Key = ''a'', Value = Number ''2''\<rparr>]],
          \<lparr>entries = \<lparr>array = 1, len = 2, cap = 2\<rparr>\<rparr>) \<and>
   \<not> unique_keys [[], [\<lparr>Key = ''a'', Value = Number ''1''\<rparr>, \<lparr>Key = ''a'', Value = Number ''2''\<rparr>]]
     \<lparr>entries = \<lparr>array = 1, len = 2, cap = 2\<rparr>\<rparr> \<and>
   Length \<lparr>entries = \<lparr>array = 1, len = 2, cap = 2\<rparr>\<rparr> = 2 \<and>
   card (Key ` set (elems
       [[], [\<lparr>Key = ''a'', Value = Number ''1''\<rparr>, \<lparr>Key = ''a'', Value = Number ''2''\<rparr>]]
       \<lparr>array = 1, len = 2, cap = 2\<rparr>)) = 1"
  by (simp add: NewObject_def makeslice_limit_def UnmarshalJSONFrom_def
      UnmarshalJSONFrom_loop.simps append_slice_def Let_def scalar_runtime_def zero_entry_def
      elems_def backing_def unique_keys_def Length_def)

text \<open>
  A sequence of five operations on a new container, with a decoding of two distinct keys
  in it: the state reached has the two keys \<open>a\<close> and \<open>c\<close>, each once.
\<close>

theorem operations_keep_unique_keys_witness:
  "apply_operations scalar_runtime scalar_UnmarshalDecode [[]]
     \<lparr>entries = \<lparr>array = 0, len = 0, cap = 0\<rparr>\<rparr>
     [OpSet ''x'' Null,
      OpUnmarshalJSONFrom [Lex BeginObject, Lex (String ''a''), Lex (Number ''1''),
        Lex (String ''b''), Lex (Number ''2''), Lex EndObject],
      OpSet ''a'' (Number ''9''), OpDelete ''b'', OpSet ''c'' (Bool True)] =
     Inr ([[], [\<lparr>Key = ''a'', Value = Number ''9''\<rparr>, \<lparr>Key = ''c'', Value = Bool True\<rparr>]],
          \<lparr>entries = \<lparr>array = 1, len = 2, cap = 2\<rparr>\<rparr>) \<and>
   unique_keys [[], [\<lparr>Key = ''a'', Value = Number ''9''\<rparr>, \<lparr>Key = ''c'', Value = Bool True\<rparr>]]
     \<lparr>entries = \<lparr>array = 1, len = 2, cap = 2\<rparr>\<rparr> \<and>
   card (Key ` set (elems
       [[], [\<lparr>Key = ''a'', Value = Number ''9''\<rparr>, \<lparr>Key = ''c'', Value = Bool True\<rparr>]]
       \<lparr>array = 1, len = 2, cap = 2\<rparr>)) = 2"
proof -
  let ?o = "\<lparr>entries = \<lparr>array = 0, len = 0, cap = 0\<rparr>\<rparr>"
  let ?ops = "[OpSet ''x'' Null,
      OpUnmarshalJSONFrom [Lex BeginObject, Lex (String ''a''), Lex (Number ''1''),
        Lex (String ''b''), Lex (Number ''2''), Lex EndObject],
      OpSet ''a'' (Number ''9''), OpDelete ''b'', OpSet ''c'' (Bool True)]"
  have n: "NewObject scalar_runtime [] [] = Inr ([[]], ?o)"
    by (simp add: NewObject_def makeslice_limit_def)
  have s1: "Set scalar_runtime [[]] ?o ''x'' Null =
      Inr ([[], [\<lparr>Key = ''x'', Value = Null\<rparr>, \<lparr>Key = [], Value = Null\<rparr>]],
           \<lparr>entries = \<lparr>array = 1, len = 1, cap = 2\<rparr>\<rparr>)"
    by (simp add: Set_def findKeyIndex_def elems_def backing_def append_slice_def Let_def
        scalar_runtime_def zero_entry_def)
  have s2: "UnmarshalJSONFrom scalar_runtime scalar_UnmarshalDecode
      [[], [\<lparr>Key = ''x'', Value = Null\<rparr>, \<lparr>Key = [], Value = Null\<rparr>]]
      \<lparr>entries = \<lparr>array = 1, len = 1, cap = 2\<rparr>\<rparr>
      [Lex BeginObject, Lex (String ''a''), Lex (Number ''1''),
        Lex (String ''b''), Lex (Number ''2''), Lex EndObject] =
      ([[], [\<lparr>Key = ''a'', Value = Number ''1''\<rparr>, \<lparr>Key = ''b'', Value = Number ''2''\<rparr>]],
       \<lparr>entries = \<lparr>array = 1, len = 2, cap = 2\<rparr>\<rparr>, [], None)"
    by (simp add: UnmarshalJSONFrom_def UnmarshalJSONFrom_loop.simps append_slice_def Let_def
        scalar_runtime_def zero_entry_def elems_def backing_def)
  have s3: "Set scalar_runtime
      [[], [\<lparr>Key = ''a'', Value = Number ''1''\<rparr>, \<lparr>Key = ''b'', Value = Number ''2''\<rparr>]]
      \<lparr>entries = \<lparr>array = 1, len = 2, cap = 2\<rparr>\<rparr> ''a'' (Number ''9'') =
      Inr ([[], [\<lparr>Key = ''a'', Value = Number ''9''\<rparr>, \<lparr>Key = ''b'', Value = Number ''2''\<rparr>]],
           \<lparr>entries = \<lparr>array = 1, len = 2, cap = 2\<rparr>\<rparr>)"
    by (simp add: Set_def findKeyIndex_def elems_def backing_def index_get_def index_set_def)
  have s4: "Delete scalar_runtime
      [[], [\<lparr>Key = ''a'', Value = Number ''9''\<rparr>, \<lparr>Key = ''b'', Value = Number ''2''\<rparr>]]
      \<lparr>entries = \<lparr>array = 1, len = 2, cap = 2\<rparr>\<rparr> ''b'' =
      Inr ([[], [\<lparr>Key = ''a'', Value = Number ''9''\<rparr>, \<lparr>Key = ''b'', Value = Number ''2''\<rparr>]],
           \<lparr>entries = \<lparr>array = 1, len = 1, cap = 2\<rparr>\<rparr>)"
    by (simp add: Delete_def findKeyIndex_def elems_def backing_def slice_to_def slice_from_def
        append_slice_def Let_def)
  have s5: "Set scalar_runtime
      [[], [\<lparr>Key = ''a'', Value = Number ''9''\<rparr>, \<lparr>Key = ''b'', Value = Number ''2''\<rparr>]]
      \<lparr>entries = \<lparr>array = 1, len = 1, cap = 2\<rparr>\<rparr> ''c'' (Bool True) =
      Inr ([[], [\<lparr>Key = ''a'', Value = Number ''9''\<rparr>, \<lparr>Key = ''c'', Value = Bool True\<rparr>]],
           \<lparr>entries = \<lparr>array = 1, len = 2, cap = 2\<rparr>\<rparr>)"
    by (simp add: Set_def findKeyIndex_def elems_def backing_def append_slice_def Let_def)
  have a: "apply_operations scalar_runtime scalar_UnmarshalDecode [[]] ?o ?ops =
      Inr ([[], [\<lparr>Key = ''a'', Value = Number ''9''\<rparr>, \<lparr>Key = ''c'', Value = Bool True\<rparr>]],
           \<lparr>entries = \<lparr>array = 1, len = 2, cap = 2\<rparr>\<rparr>)"
    by (simp add: s1[simplified] s2[simplified] s3[simplified] s4[simplified] s5[simplified])
  have d: "decodes_unique scalar_runtime scalar_UnmarshalDecode [[]] ?o ?ops"
    by (simp add: s1[simplified] s2[simplified] s3[simplified] s4[simplified] s5[simplified]
        unique_keys_def elems_def backing_def)
  let ?m' = "[[], [\<lparr>Key = ''a'', Value = Number ''9''\<rparr>, \<lparr>Key = ''c'', Value = Bool True\<rparr>]]"
  let ?o' = "\<lparr>entries = \<lparr>array = 1, len = 2, cap = 2\<rparr>\<rparr>"
  from operations_keep_unique_keys[OF n d] a have
    r: "unique_keys ?m' ?o'" "length (elems ?m' (entries ?o')) = card (Key ` set (elems ?m' (entries ?o')))"
    by simp_all
  have e: "length (elems ?m' (entries ?o')) = 2"
    by (simp add: elems_def backing_def)
  from a r e show ?thesis by simp
qed

section \<open>Decoding followed by encoding\<close>

text \<open>
  Claim C2, corrected. \<^verbatim>\<open>UnmarshalJSON\<close> keeps the keys and the decoded values of the
  members, in source order, and nothing else of the bytes; \<^verbatim>\<open>MarshalJSON\<close> writes what the
  host's writer and marshaller produce for them. So for every input \<open>b\<close> that the reader
  turns into the tokens of an object whose member values the host decodes, decoding
  succeeds with the members of \<open>b\<close> as entries, and when the host encodes these members
  without error, \<^verbatim>\<open>MarshalJSON\<close> of the result returns that encoding: it equals \<open>b\<close> exactly
  when \<open>b\<close> is the host's own encoding of its members. Being a well-formed object of
  scalars is not enough.
\<close>

theorem Marshal_Unmarshal_canonical:
  assumes "valid_slice m (entries object)"
    and "NewDecoder b = object_lexemes ps @ rest"
    and "\<forall>(k, v, ls) \<in> set ps. \<forall>rest. UD (ls @ rest) = Inr (v, length ls)"
    and "emit_all J (MarshalTo_sequence (member_entries ps)) (NewEncoder J) = (enc, None)"
  shows "\<exists>m' object'.
     UnmarshalJSON rt NewDecoder UD m object b = (m', object', rest, None) \<and>
     elems m' (entries object') = member_entries ps \<and>
     MarshalJSON J m' object' = Inr (Bytes J enc) \<and>
     (MarshalJSON J m' object' = Inr b \<longleftrightarrow> Bytes J enc = b)"
proof -
  from UnmarshalJSONFrom_members[OF assms(3) assms(1), of rt rest] obtain m' object' where
    r: "UnmarshalJSONFrom rt UD m object (object_lexemes ps @ rest) = (m', object', rest, None)"
      "elems m' (entries object') = member_entries ps"
    by blast
  have u: "UnmarshalJSON rt NewDecoder UD m object b = (m', object', rest, None)"
    using r(1) assms(2) by (simp add: UnmarshalJSON_def)
  have j: "MarshalJSON J m' object' = Inr (Bytes J enc)"
    using assms(4) r(2) by (simp add: MarshalJSON_def MarshalJSONTo_emit_all)
  from u r(2) j show ?thesis by auto
qed

text \<open>
  The claim as stated fails at the well-formed input \<^verbatim>\<open>{ "a": 1 }\<close>, an object with one
  number: decoding succeeds, and encoding the result gives \<^verbatim>\<open>{"a":1}\<close> and a newline.
\<close>

theorem Marshal_Unmarshal_white_space:
  \<open>UnmarshalJSON scalar_runtime NewDecoder_lex scalar_UnmarshalDecode [[]]
     \<lparr>entries = \<lparr>array = 0, len = 0, cap = 0\<rparr>\<rparr> ''{ "a": 1 }'' =
     ([[], [\<lparr>Key = ''a'', Value = Number ''1''\<rparr>, \<lparr>Key = [], Value = Null\<rparr>]],
      \<lparr>entries = \<lparr>array = 1, len = 1, cap = 2\<rparr>\<rparr>, [], None) \<and>
   MarshalJSON scalar_host
     [[], [\<lparr>Key = ''a'', Value = Number ''1''\<rparr>, \<lparr>Key = [], Value = Null\<rparr>]]
     \<lparr>entries = \<lparr>array = 1, len = 1, cap = 2\<rparr>\<rparr> = Inr (''{"a":1}'' @ [CHR 0x0A]) \<and>
   ''{"a":1}'' @ [CHR 0x0A] \<noteq> ''{ "a": 1 }''\<close>
  by (simp add: UnmarshalJSON_def NewDecoder_lex.simps is_space_def is_number_char_def
      needs_escape_def UnmarshalJSONFrom_def UnmarshalJSONFrom_loop.simps append_slice_def
      Let_def scalar_runtime_def zero_entry_def elems_def backing_def MarshalJSON_def
      MarshalJSONTo_def scalar_host_def top_level_newline_def)

text \<open>
  An input in the form the writer produces, with its final newline, comes back byte for
  byte.
\<close>

theorem Marshal_Unmarshal_canonical_witness:
  \<open>\<exists>m' object'.
     UnmarshalJSON scalar_runtime NewDecoder_lex scalar_UnmarshalDecode [[]]
       \<lparr>entries = \<lparr>array = 0, len = 0, cap = 0\<rparr>\<rparr> (''{"a":1,"b":true}'' @ [CHR 0x0A]) =
       (m', object', [], None) \<and>
     elems m' (entries object') =
       [\<lparr>Key = ''a'', Value = Number ''1''\<rparr>, \<lparr>Key = ''b'', Value = Bool True\<rparr>] \<and>
     MarshalJSON scalar_host m' object' = Inr (''{"a":1,"b":true}'' @ [CHR 0x0A])\<close>
proof -
  let ?b = \<open>''{"a":1,"b":true}'' @ [CHR 0x0A]\<close>
  let ?ps = "[(''a'', Number ''1'', [Lex (Number ''1'')]), (''b'', Bool True, [Lex (Bool True)])]"
  let ?enc = \<open>\<lparr>buf = ''{"a":1,"b":true}'' @ [CHR 0x0A], frames = []\<rparr>\<close>
  have v: "valid_slice [[]] (entries \<lparr>entries = \<lparr>array = 0, len = 0, cap = 0\<rparr>\<rparr>)"
    by (simp add: valid_slice_def)
  have d: "NewDecoder_lex ?b = object_lexemes ?ps @ []"
    by (simp add: NewDecoder_lex.simps is_space_def is_number_char_def needs_escape_def
        object_lexemes_def member_lexemes_def)
  have h: "\<forall>(k, v, ls) \<in> set ?ps. \<forall>rest. scalar_UnmarshalDecode (ls @ rest) = Inr (v, length ls)"
    by simp
  have e: "emit_all scalar_host (MarshalTo_sequence (member_entries ?ps)) (NewEncoder scalar_host) =
      (?enc, None)"
    by (simp add: MarshalTo_sequence_def member_entries_def scalar_host_def needs_escape_def
        top_level_newline_def)
  have b: "Bytes scalar_host ?enc = ?b"
    by (simp add: scalar_host_def)
  note t = Marshal_Unmarshal_canonical[where m = "[[]]"
      and object = "\<lparr>entries = \<lparr>array = 0, len = 0, cap = 0\<rparr>\<rparr>"
      and NewDecoder = NewDecoder_lex and b = ?b and ps = ?ps and rest = "[]"
      and UD = scalar_UnmarshalDecode and J = scalar_host and enc = ?enc
      and rt = scalar_runtime]
  from t[OF v d h e] b
  show ?thesis by (auto simp: member_entries_def)
qed


end
